theory Spec2Isabelle
  imports Main
begin

section \<open>Data model\<close>

text \<open>
  A row of the \<open>staffs\<close> table, as \<open>app.py\<close> reads and writes it. Python integers are
  unbounded, so \<open>priority_count\<close> is an \<open>int\<close>; the two columns that may hold
  \<open>None\<close> are options.
\<close>

record staff =
  staff_id :: string
  staff_name :: string
  department :: string
  busy_9_10 :: bool
  priority_count :: int
  priority_updated_month :: "string option"
  updated_at :: "string option"

text \<open>A row of the \<open>monthly_schedule\<close> table.\<close>

record sched_row =
  row_staff_id :: string
  row_month :: string
  row_weekday :: string
  row_gate :: string

text \<open>One element of a day's list in the response (\<open>staff_id\<close>, \<open>name\<close>, \<open>gate\<close>).\<close>

record day_entry =
  entry_staff_id :: string
  entry_name :: string
  entry_gate :: string

definition weekdays :: "string list" where
  "weekdays = [''Monday'', ''Tuesday'', ''Wednesday'', ''Thursday'', ''Friday'', ''Saturday'']"

definition gates :: "string list" where
  "gates = [''Gate A'', ''Gate B'', ''Gate C'']"

definition TOTAL_SLOTS :: nat where
  "TOTAL_SLOTS = 6 * length weekdays"

section \<open>The in-memory staff map\<close>

text \<open>
  \<open>staff_map = {s["staff_id"]: s for s in staff_resp.data}\<close>. A Python dict keeps its
  keys in the order of their first insertion and a later value for a key replaces the
  earlier one in place. The key of every value is the value's own \<open>staff_id\<close>, so the
  dict is the list of its values in insertion order.
\<close>

fun dict_put :: "staff \<Rightarrow> staff list \<Rightarrow> staff list" where
  "dict_put s [] = [s]"
| "dict_put s (t # ts) = (if staff_id t = staff_id s then s # ts else t # dict_put s ts)"

definition build_staff_map :: "staff list \<Rightarrow> staff list" where
  "build_staff_map rows = foldl (\<lambda>m s. dict_put s m) [] rows"

text \<open>
  \<open>staff["priority_count"] += 1\<close> mutates the dict object that \<open>staff_map\<close> holds under
  the key \<open>staff["staff_id"]\<close>; every value of the map is an object of its own, so no
  other entry changes.
\<close>

definition increment :: "string \<Rightarrow> staff list \<Rightarrow> staff list" where
  "increment k m =
     map (\<lambda>s. if staff_id s = k then s\<lparr>priority_count := priority_count s + 1\<rparr> else s) m"

section \<open>The progressive consumption loop\<close>

text \<open>
  Lines 96 to 110. \<open>sorted\<close> is Python's stable sort, as \<open>sort_key\<close> is; the test
  \<open>not eligible or eligible[0]["priority_count"] >= 3\<close> reads \<open>eligible[0]\<close> only when
  the list is not empty.
\<close>

function consume :: "staff list \<Rightarrow> string list \<Rightarrow> staff list \<times> string list" where
  "consume staff_map assignments =
     (if length assignments < TOTAL_SLOTS then
        (let eligible = sort_key priority_count staff_map in
         if eligible = [] \<or> priority_count (hd eligible) \<ge> 3 then (staff_map, assignments)
         else
           (let s = hd eligible in
            consume (increment (staff_id s) staff_map) (assignments @ [staff_id s])))
      else (staff_map, assignments))"
  by pat_completeness auto
termination
  by (relation "measure (\<lambda>(m, a). TOTAL_SLOTS - length a)") auto

section \<open>Mapping the assignments onto weekdays and gates\<close>

datatype error = TypeError | KeyError

text \<open>
  A loop either runs to its end or is left by an exception; the state reached so far
  stays, since the rows already inserted are not taken back.
\<close>

datatype 's outcome = Completed 's | Raised error 's

text \<open>
  The variables of lines 113 to 142. \<open>schedule_rows\<close> is the \<open>monthly_schedule\<close> table,
  to which every \<open>insert\<close> appends a row.
\<close>

record map_state =
  idx :: nat
  shortage_days :: "string list"
  day_list :: "day_entry list"
  scheduled_days :: "(string \<times> day_entry list) list"
  schedule_rows :: "sched_row list"

text \<open>\<open>staff_map[staff_id]\<close>: the value under the key, or no value (a \<open>KeyError\<close>).\<close>

definition lookup :: "staff list \<Rightarrow> string \<Rightarrow> staff option" where
  "lookup staff_map k = find (\<lambda>s. staff_id s = k) staff_map"

text \<open>
  \<open>for _ in range(2)\<close>, written for any number of seats left: the \<open>break\<close> leaves this
  loop only, so the next gate of the same day is still visited.
\<close>

fun seat_loop ::
  "staff list \<Rightarrow> string list \<Rightarrow> string \<Rightarrow> string \<Rightarrow> string \<Rightarrow> nat \<Rightarrow> map_state
     \<Rightarrow> map_state outcome" where
  "seat_loop staff_map assignments month_date day g 0 st = Completed st"
| "seat_loop staff_map assignments month_date day g (Suc n) st =
     (if idx st \<ge> length assignments
      then Completed (st\<lparr>shortage_days := shortage_days st @ [day]\<rparr>)
      else
        (let sid = assignments ! idx st in
         case lookup staff_map sid of
           None \<Rightarrow> Raised KeyError st
         | Some s \<Rightarrow>
             seat_loop staff_map assignments month_date day g n
               (st\<lparr>schedule_rows := schedule_rows st @
                      [\<lparr>row_staff_id = sid, row_month = month_date,
                        row_weekday = day, row_gate = g\<rparr>],
                    day_list := day_list st @
                      [\<lparr>entry_staff_id = sid, entry_name = staff_name s, entry_gate = g\<rparr>],
                    idx := idx st + 1\<rparr>)))"

fun gate_loop ::
  "staff list \<Rightarrow> string list \<Rightarrow> string \<Rightarrow> string \<Rightarrow> string list \<Rightarrow> map_state
     \<Rightarrow> map_state outcome" where
  "gate_loop staff_map assignments month_date day [] st = Completed st"
| "gate_loop staff_map assignments month_date day (g # gs) st =
     (case seat_loop staff_map assignments month_date day g 2 st of
        Raised e st' \<Rightarrow> Raised e st'
      | Completed st' \<Rightarrow> gate_loop staff_map assignments month_date day gs st')"

text \<open>\<open>d[k] = v\<close> on a dict kept as the list of its items in insertion order.\<close>

fun dict_set :: "'k \<Rightarrow> 'v \<Rightarrow> ('k \<times> 'v) list \<Rightarrow> ('k \<times> 'v) list" where
  "dict_set k v [] = [(k, v)]"
| "dict_set k v (p # ps) = (if fst p = k then (k, v) # ps else p # dict_set k v ps)"

fun day_loop ::
  "staff list \<Rightarrow> string list \<Rightarrow> string \<Rightarrow> string list \<Rightarrow> map_state \<Rightarrow> map_state outcome" where
  "day_loop staff_map assignments month_date [] st = Completed st"
| "day_loop staff_map assignments month_date (day # days) st =
     (case gate_loop staff_map assignments month_date day gates (st\<lparr>day_list := []\<rparr>) of
        Raised e st' \<Rightarrow> Raised e st'
      | Completed st' \<Rightarrow>
          day_loop staff_map assignments month_date days
            (if day_list st' \<noteq> []
             then st'\<lparr>scheduled_days := dict_set day (day_list st') (scheduled_days st')\<rparr>
             else st'))"

section \<open>Requests, replies and the store\<close>

text \<open>
  The body of a request as \<open>request.get_json\<close> parses it, taken to be a JSON object.
  A JSON number is kept as an integer: a float takes the same branch as an integer
  everywhere below (false when zero, a \<open>TypeError\<close> when added to a string).
\<close>

datatype json = JNull | JBool bool | JInt int | JStr string
  | JArr "json list" | JObj "(string \<times> json) list"

type_synonym request = "string \<rightharpoonup> json"

text \<open>\<open>data.get(k)\<close> is \<open>None\<close> for a missing key.\<close>

definition get :: "request \<Rightarrow> string \<Rightarrow> json" where
  "get data k = (case data k of None \<Rightarrow> JNull | Some v \<Rightarrow> v)"

text \<open>Python's truth value, which \<open>not x\<close> negates.\<close>

fun truthy :: "json \<Rightarrow> bool" where
  "truthy JNull = False"
| "truthy (JBool b) = b"
| "truthy (JInt i) = (i \<noteq> 0)"
| "truthy (JStr s) = (s \<noteq> [])"
| "truthy (JArr xs) = (xs \<noteq> [])"
| "truthy (JObj kvs) = (kvs \<noteq> [])"

record database =
  staffs_table :: "staff list"
  schedule_table :: "sched_row list"

datatype body =
    Error string
  | Message string
  | Schedule string "(string \<times> day_entry list) list" "string list"

text \<open>
  What the caller gets: \<open>jsonify(body), status\<close>, or an exception that no handler of
  \<open>app.py\<close> catches.
\<close>

datatype reply = Reply body nat | Unhandled error

section \<open>The scheduling request\<close>

text \<open>
  Lines 145 to 150: one \<open>update ... eq("staff_id", ...)\<close> for every value of
  \<open>staff_map\<close>. \<open>datetime.utcnow()\<close> is read anew at every update; \<open>clock n\<close> is the
  time stamp of the \<open>n\<close>-th reading.
\<close>

fun persist_loop ::
  "string \<Rightarrow> (nat \<Rightarrow> string) \<Rightarrow> nat \<Rightarrow> staff list \<Rightarrow> staff list \<Rightarrow> staff list" where
  "persist_loop month_date clock n [] table = table"
| "persist_loop month_date clock n (s # rest) table =
     persist_loop month_date clock (Suc n) rest
       (map (\<lambda>r. if staff_id r = staff_id s
                 then r\<lparr>priority_count := priority_count s,
                        priority_updated_month := Some month_date,
                        updated_at := Some (clock n)\<rparr>
                 else r) table)"

text \<open>
  The answer of \<open>select("*").eq("busy_9_10", False).order("priority_count")\<close>: the rows
  that are not busy, by ascending \<open>priority_count\<close>; the store decides the order of
  rows with equal counts.
\<close>

definition fetch_answer :: "database \<Rightarrow> staff list \<Rightarrow> bool" where
  "fetch_answer db fetched \<longleftrightarrow>
     sorted (map priority_count fetched) \<and>
     (\<forall>r. count_list fetched r =
           count_list (filter (\<lambda>s. \<not> busy_9_10 s) (staffs_table db)) r)"

text \<open>
  \<open>list(set(xs))\<close> keeps one copy of every element, in an order that depends on the
  hashes of the strings; \<open>list_of_set\<close> stands for that function.
\<close>

definition set_order :: "(string list \<Rightarrow> string list) \<Rightarrow> bool" where
  "set_order list_of_set \<longleftrightarrow> (\<forall>xs. distinct (list_of_set xs) \<and> set (list_of_set xs) = set xs)"

text \<open>
  The handler of \<open>POST /schedule\<close>. \<open>fetched\<close> is the answer of the store to the query
  of lines 85 to 89. \<open>month_input + "-01"\<close> raises a \<open>TypeError\<close> unless \<open>month_input\<close> is
  a string.
\<close>

definition generate_monthly_schedule ::
  "(nat \<Rightarrow> string) \<Rightarrow> (string list \<Rightarrow> string list) \<Rightarrow> staff list \<Rightarrow> request \<Rightarrow> database
     \<Rightarrow> reply \<times> database" where
  "generate_monthly_schedule clock list_of_set fetched data db =
     (let month_input = get data ''month'' in
      if \<not> truthy month_input then (Reply (Error ''month required'') 400, db)
      else
        (case month_input of
           JStr month \<Rightarrow>
             (let month_date = month @ ''-01'';
                  (staff_map, assignments) = consume (build_staff_map fetched) [];
                  init = \<lparr>idx = 0, shortage_days = [], day_list = [], scheduled_days = [],
                          schedule_rows = schedule_table db\<rparr>
              in case day_loop staff_map assignments month_date weekdays init of
                   Raised e st \<Rightarrow> (Unhandled e, db\<lparr>schedule_table := schedule_rows st\<rparr>)
                 | Completed st \<Rightarrow>
                     (Reply (Schedule month (scheduled_days st)
                               (list_of_set (shortage_days st))) 200,
                      \<lparr>staffs_table =
                         persist_loop month_date clock 0 staff_map (staffs_table db),
                       schedule_table = schedule_rows st\<rparr>))
         | _ \<Rightarrow> (Unhandled TypeError, db)))"

section \<open>Reset and delete\<close>

text \<open>
  \<open>POST /reset-priority\<close>. The \<open>update\<close> of lines 168 to 172 carries no filter and is
  taken to reach every row of \<open>staffs\<close>.
\<close>

definition reset_priority :: "(nat \<Rightarrow> string) \<Rightarrow> request \<Rightarrow> database \<Rightarrow> reply \<times> database" where
  "reset_priority clock data db =
     (let confirmation = get data ''confirmation'' in
      if confirmation \<noteq> JStr ''CONFIRM'' then (Reply (Error ''Confirmation failed'') 400, db)
      else
        (Reply (Message ''All staff priorities reset'') 200,
         db\<lparr>staffs_table :=
              map (\<lambda>r. r\<lparr>priority_count := 0, priority_updated_month := None,
                          updated_at := Some (clock 0)\<rparr>) (staffs_table db)\<rparr>))"

text \<open>
  \<open>POST /delete-month\<close>. Only the confirmation is tested; \<open>month + "-01"\<close> then raises a
  \<open>TypeError\<close> unless \<open>month\<close> is a string.
\<close>

definition delete_month_schedule :: "request \<Rightarrow> database \<Rightarrow> reply \<times> database" where
  "delete_month_schedule data db =
     (let month = get data ''month'';
          confirmation = get data ''confirmation'' in
      if confirmation \<noteq> JStr ''CONFIRM'' then (Reply (Error ''Type CONFIRM'') 400, db)
      else
        (case month of
           JStr m \<Rightarrow>
             (let month_date = m @ ''-01'' in
              (Reply (Message (m @ '' deleted'')) 200,
               db\<lparr>schedule_table :=
                    filter (\<lambda>r. row_month r \<noteq> month_date) (schedule_table db)\<rparr>))
         | _ \<Rightarrow> (Unhandled TypeError, db)))"

section \<open>Example data\<close>

definition ex_staff :: "string \<Rightarrow> bool \<Rightarrow> int \<Rightarrow> staff" where
  "ex_staff k b c = \<lparr>staff_id = k, staff_name = k, department = ''D'', busy_9_10 = b,
     priority_count = c, priority_updated_month = Some ''2024-01-01'', updated_at = None\<rparr>"

section \<open>Notions used in the statements\<close>

text \<open>
  The staff map \<open>m0\<close> after the assignments \<open>a\<close>: every entry has gained one for each
  occurrence of its id.
\<close>

definition counted :: "staff list \<Rightarrow> string list \<Rightarrow> staff list" where
  "counted m0 a =
     map (\<lambda>s. s\<lparr>priority_count := priority_count s + int (count_list a (staff_id s))\<rparr>) m0"

text \<open>The entry that \<open>eligible[0]\<close> denotes.\<close>

definition picked :: "staff list \<Rightarrow> staff" where
  "picked m = hd (sort_key priority_count m)"

text \<open>
  What holds of the variables of the loop at the head of every pass, for the run that
  started from \<open>m0\<close> with no assignment.
\<close>

definition loop_inv :: "staff list \<Rightarrow> staff list \<Rightarrow> string list \<Rightarrow> bool" where
  "loop_inv m0 m a \<longleftrightarrow>
     m = counted m0 a \<and> length a \<le> TOTAL_SLOTS \<and> set a \<subseteq> staff_id ` set m0 \<and>
     (\<forall>n < length a. m0 \<noteq> [] \<and> Min (priority_count ` set (counted m0 (take n a))) < 3 \<and>
        a ! n = staff_id (picked (counted m0 (take n a))))"

text \<open>The number of assignments that the staff of \<open>m\<close> can still take below the ceiling.\<close>

definition headroom :: "staff list \<Rightarrow> int" where
  "headroom m = (\<Sum>s\<leftarrow>m. max 0 (3 - priority_count s))"

definition headroom_inv :: "staff list \<Rightarrow> staff list \<Rightarrow> string list \<Rightarrow> bool" where
  "headroom_inv m0 m a \<longleftrightarrow>
     distinct (map staff_id m) \<and> length a \<le> TOTAL_SLOTS \<and> headroom m + int (length a) = headroom m0"

definition assigned_inv :: "staff list \<Rightarrow> string list \<Rightarrow> bool" where
  "assigned_inv m a \<longleftrightarrow>
     distinct (map staff_id m) \<and>
     (\<forall>s \<in> set m. staff_id s \<in> set a \<longrightarrow>
        priority_count s \<le> 3 \<and> priority_count s \<le> Min (priority_count ` set m) + 1)"

text \<open>
  The largest minus the smallest \<open>priority_count\<close> among the entries of \<open>m\<close> whose id
  occurs in \<open>a\<close>.
\<close>

definition spread :: "staff list \<Rightarrow> string list \<Rightarrow> int" where
  "spread m a =
     Max (set (map priority_count (filter (\<lambda>s. staff_id s \<in> set a) m))) -
     Min (set (map priority_count (filter (\<lambda>s. staff_id s \<in> set a) m)))"

definition twelve_staff :: "staff list" where
  "twelve_staff = map (\<lambda>k. ex_staff k False 0)
     [''S01'', ''S02'', ''S03'', ''S04'', ''S05'', ''S06'',
      ''S07'', ''S08'', ''S09'', ''S10'', ''S11'', ''S12'']"

definition two_staff :: "staff list" where
  "two_staff = [ex_staff ''A'' False 0, ex_staff ''B'' False 2]"

text \<open>
  The rows and entries that the mapping loops build, and the slots in the order in
  which the three nested loops visit them: weekday, then gate, then two seats.
\<close>

definition name_of :: "staff list \<Rightarrow> string \<Rightarrow> string" where
  "name_of m k = (case lookup m k of None \<Rightarrow> [] | Some s \<Rightarrow> staff_name s)"

definition mk_row :: "string \<Rightarrow> string \<times> string \<times> string \<Rightarrow> sched_row" where
  "mk_row month_date x =
     \<lparr>row_staff_id = fst x, row_month = month_date,
      row_weekday = fst (snd x), row_gate = snd (snd x)\<rparr>"

definition mk_entry :: "staff list \<Rightarrow> string \<times> string \<times> string \<Rightarrow> day_entry" where
  "mk_entry m x =
     \<lparr>entry_staff_id = fst x, entry_name = name_of m (fst x), entry_gate = snd (snd x)\<rparr>"

definition gate_slots :: "string \<Rightarrow> string list \<Rightarrow> (string \<times> string) list" where
  "gate_slots day gs = concat (map (\<lambda>g. replicate 2 (day, g)) gs)"

definition slot_layout :: "string list \<Rightarrow> (string \<times> string) list" where
  "slot_layout days = concat (map (\<lambda>day. gate_slots day gates) days)"

text \<open>
  The state after the slots \<open>slots\<close> have been offered to the assignments from \<open>idx\<close> on,
  with \<open>extra\<close> appended to the shortage days.
\<close>

definition fill ::
  "staff list \<Rightarrow> string list \<Rightarrow> string \<Rightarrow> (string \<times> string) list \<Rightarrow> string list \<Rightarrow> map_state
     \<Rightarrow> map_state" where
  "fill m a month_date slots extra st =
     st\<lparr>schedule_rows := schedule_rows st @ map (mk_row month_date) (zip (drop (idx st) a) slots),
        day_list := day_list st @ map (mk_entry m) (zip (drop (idx st) a) slots),
        shortage_days := shortage_days st @ extra,
        idx := idx st + min (length slots) (length a - idx st)\<rparr>"

text \<open>The value of \<open>scheduled_days\<close> after the days \<open>ds\<close>, read off the assignments.\<close>

fun plan_days ::
  "staff list \<Rightarrow> string list \<Rightarrow> string list \<Rightarrow> nat \<Rightarrow> (string \<times> day_entry list) list
     \<Rightarrow> (string \<times> day_entry list) list" where
  "plan_days m a [] i sd = sd"
| "plan_days m a (d # ds) i sd =
     (let es = map (mk_entry m) (zip (drop i a) (gate_slots d gates))
      in plan_days m a ds (i + min 6 (length a - i)) (if es \<noteq> [] then dict_set d es sd else sd))"

text \<open>
  The plan and the shortage list of a reply, and the (staff, weekday, gate) triples of
  the rows that a request added to \<open>monthly_schedule\<close>.
\<close>

definition plan_of :: "reply \<Rightarrow> (string \<times> day_entry list) list option" where
  "plan_of r = (case r of Reply (Schedule mo plan sh) code \<Rightarrow> Some plan | _ \<Rightarrow> None)"

definition inserted_slots :: "database \<Rightarrow> database \<Rightarrow> (string \<times> string \<times> string) list" where
  "inserted_slots db db' =
     map (\<lambda>r. (row_staff_id r, row_weekday r, row_gate r))
       (drop (length (schedule_table db)) (schedule_table db'))"

definition empty_db :: database where
  "empty_db = \<lparr>staffs_table = [], schedule_table = []\<rparr>"

definition three_staff :: "staff list" where
  "three_staff = [ex_staff ''A'' False 0, ex_staff ''B'' False 0, ex_staff ''C'' False 0]"

definition shortage_of :: "reply \<Rightarrow> string list option" where
  "shortage_of r = (case r of Reply (Schedule mo plan sh) code \<Rightarrow> Some sh | _ \<Rightarrow> None)"

text \<open>What the write-back loop does to one row of \<open>staffs\<close>.\<close>

fun persist_row :: "string \<Rightarrow> (nat \<Rightarrow> string) \<Rightarrow> nat \<Rightarrow> staff list \<Rightarrow> staff \<Rightarrow> staff" where
  "persist_row month_date clock n [] r = r"
| "persist_row month_date clock n (s # rest) r =
     persist_row month_date clock (Suc n) rest
       (if staff_id r = staff_id s
        then r\<lparr>priority_count := priority_count s,
               priority_updated_month := Some month_date,
               updated_at := Some (clock n)\<rparr>
        else r)"

definition db_example :: database where
  "db_example =
     \<lparr>staffs_table = [ex_staff ''A'' False 0, ex_staff ''B'' True 1, ex_staff ''C'' False 3],
      schedule_table = []\<rparr>"

section \<open>The selection of the loop\<close>

lemma TOTAL_SLOTS_eq: "TOTAL_SLOTS = 36"
  by (simp add: TOTAL_SLOTS_def weekdays_def)

lemma sort_key_Nil_iff: "sort_key f xs = [] \<longleftrightarrow> xs = []"
  by (metis length_sort length_0_conv)

lemma key_hd_sort_key:
  assumes "xs \<noteq> []"
  shows "f (hd (sort_key f xs)) = Min (f ` set xs)"
proof -
  let ?ys = "sort_key f xs"
  have ne: "?ys \<noteq> []" using assms by (simp add: sort_key_Nil_iff)
  then obtain y ys where ys: "?ys = y # ys" by (cases ?ys) auto
  have srt: "sorted (map f ?ys)" by simp
  have "\<forall>z \<in> set ?ys. f y \<le> f z" using srt unfolding ys by auto
  hence le: "\<forall>z \<in> set xs. f y \<le> f z" by simp
  have "y \<in> set ?ys" unfolding ys by simp
  hence mem: "y \<in> set xs" by simp
  have "Min (f ` set xs) = f y"
    by (rule Min_eqI) (use le mem in auto)
  thus ?thesis by (simp add: ys)
qed

lemma hd_sort_key_first:
  assumes "xs \<noteq> []"
  shows "hd (sort_key f xs) = hd (filter (\<lambda>y. f y = Min (f ` set xs)) xs)"
proof -
  let ?ys = "sort_key f xs"
  let ?k = "Min (f ` set xs)"
  have ne: "?ys \<noteq> []" using assms by (simp add: sort_key_Nil_iff)
  then obtain y ys where ys: "?ys = y # ys" by (cases ?ys) auto
  have "f y = ?k" using key_hd_sort_key[OF assms, of f] by (simp add: ys)
  hence "hd (filter (\<lambda>y. f y = ?k) ?ys) = y" by (simp add: ys)
  moreover have "filter (\<lambda>y. f y = ?k) ?ys = filter (\<lambda>y. f y = ?k) xs"
    by (rule sort_key_stable)
  ultimately show ?thesis by (simp add: ys)
qed

lemma consume_stop:
  assumes "\<not> length a < TOTAL_SLOTS \<or> m = [] \<or> 3 \<le> Min (priority_count ` set m)"
  shows "consume m a = (m, a)"
proof (cases "length a < TOTAL_SLOTS")
  case False
  thus ?thesis by (subst consume.simps) (simp only: if_False)
next
  case lt: True
  show ?thesis
  proof (cases "m = []")
    case True
    hence "sort_key priority_count m = []" by simp
    thus ?thesis using lt by (subst consume.simps) (simp only: Let_def if_True simp_thms)
  next
    case False
    hence "priority_count (hd (sort_key priority_count m)) = Min (priority_count ` set m)"
      by (rule key_hd_sort_key)
    hence "3 \<le> priority_count (hd (sort_key priority_count m))"
      using assms lt False by simp
    thus ?thesis using lt by (subst consume.simps) (simp only: Let_def if_True simp_thms)
  qed
qed

lemma consume_step:
  assumes "length a < TOTAL_SLOTS" "m \<noteq> []" "Min (priority_count ` set m) < 3"
  shows "consume m a = consume (increment (staff_id (hd (sort_key priority_count m))) m)
                         (a @ [staff_id (hd (sort_key priority_count m))])"
proof -
  have "priority_count (hd (sort_key priority_count m)) = Min (priority_count ` set m)"
    using assms(2) by (rule key_hd_sort_key)
  hence "\<not> 3 \<le> priority_count (hd (sort_key priority_count m))"
    using assms(3) by linarith
  thus ?thesis using assms(1,2)
    by (subst consume.simps) (simp only: Let_def sort_key_Nil_iff if_True if_False simp_thms)
qed

declare consume.simps [simp del]

lemma consume_invariant:
  assumes "I m a"
    and "\<And>m a. I m a \<Longrightarrow> length a < TOTAL_SLOTS \<Longrightarrow> m \<noteq> [] \<Longrightarrow>
            Min (priority_count ` set m) < 3 \<Longrightarrow>
            I (increment (staff_id (hd (sort_key priority_count m))) m)
              (a @ [staff_id (hd (sort_key priority_count m))])"
  shows "I (fst (consume m a)) (snd (consume m a))"
  using assms(1)
proof (induction m a rule: consume.induct)
  case (1 m a)
  show ?case
  proof (cases "length a < TOTAL_SLOTS \<and> m \<noteq> [] \<and> Min (priority_count ` set m) < 3")
    case True
    let ?e = "sort_key priority_count m"
    let ?k = "staff_id (hd ?e)"
    have I': "I (increment ?k m) (a @ [?k])"
      using assms(2)[OF "1.prems"] True by blast
    have k: "priority_count (hd ?e) = Min (priority_count ` set m)"
      using True by (intro key_hd_sort_key) simp
    have "?e \<noteq> []" using True by (simp add: sort_key_Nil_iff)
    moreover have "\<not> 3 \<le> priority_count (hd ?e)"
      using conjunct2[OF conjunct2[OF True]] k by linarith
    ultimately have c1: "\<not> (?e = [] \<or> 3 \<le> priority_count (hd ?e))" by blast
    have "I (fst (consume (increment ?k m) (a @ [?k]))) (snd (consume (increment ?k m) (a @ [?k])))"
      using True c1 I' by (intro "1.IH"[OF _ refl _ refl]) blast+
    moreover have "consume m a = consume (increment ?k m) (a @ [?k])"
      using True by (intro consume_step) blast+
    ultimately show ?thesis by (simp only:)
  next
    case False
    hence "consume m a = (m, a)" by (intro consume_stop) auto
    thus ?thesis using "1.prems" by simp
  qed
qed

lemma consume_exit:
  "TOTAL_SLOTS \<le> length (snd (consume m a)) \<or> fst (consume m a) = [] \<or>
   3 \<le> Min (priority_count ` set (fst (consume m a)))"
proof (induction m a rule: consume.induct)
  case (1 m a)
  show ?case
  proof (cases "length a < TOTAL_SLOTS \<and> m \<noteq> [] \<and> Min (priority_count ` set m) < 3")
    case True
    let ?e = "sort_key priority_count m"
    let ?k = "staff_id (hd ?e)"
    have k: "priority_count (hd ?e) = Min (priority_count ` set m)"
      using True by (intro key_hd_sort_key) simp
    have "?e \<noteq> []" using True by (simp add: sort_key_Nil_iff)
    moreover have "\<not> 3 \<le> priority_count (hd ?e)"
      using conjunct2[OF conjunct2[OF True]] k by linarith
    ultimately have c1: "\<not> (?e = [] \<or> 3 \<le> priority_count (hd ?e))" by blast
    have "TOTAL_SLOTS \<le> length (snd (consume (increment ?k m) (a @ [?k]))) \<or>
          fst (consume (increment ?k m) (a @ [?k])) = [] \<or>
          3 \<le> Min (priority_count ` set (fst (consume (increment ?k m) (a @ [?k]))))"
      using True c1 by (intro "1.IH"[OF _ refl _ refl]) blast+
    moreover have "consume m a = consume (increment ?k m) (a @ [?k])"
      using True by (intro consume_step) blast+
    ultimately show ?thesis by (simp only:)
  next
    case False
    hence "consume m a = (m, a)" by (intro consume_stop) auto
    thus ?thesis using False by (simp only: fst_conv snd_conv) linarith
  qed
qed

section \<open>What the loop keeps\<close>

lemma counted_Nil: "counted m0 [] = m0"
  by (simp add: counted_def)

lemma length_counted: "length (counted m0 a) = length m0"
  by (simp add: counted_def)

lemma counted_eq_Nil: "counted m0 a = [] \<longleftrightarrow> m0 = []"
  by (simp add: counted_def)

lemma staff_id_counted: "map staff_id (counted m0 a) = map staff_id m0"
  by (simp add: counted_def comp_def)

lemma increment_counted: "increment k (counted m0 a) = counted m0 (a @ [k])"
  by (simp add: increment_def counted_def)

lemma picked_mem: "m \<noteq> [] \<Longrightarrow> picked m \<in> set m"
proof -
  assume "m \<noteq> []"
  hence "sort_key priority_count m \<noteq> []" by (simp add: sort_key_Nil_iff)
  hence "hd (sort_key priority_count m) \<in> set (sort_key priority_count m)" by (rule hd_in_set)
  thus ?thesis by (simp add: picked_def)
qed

lemma loop_inv_init: "loop_inv m0 m0 []"
  by (simp add: loop_inv_def counted_Nil)

lemma loop_inv_step:
  assumes inv: "loop_inv m0 m a" and lt: "length a < TOTAL_SLOTS" and ne: "m \<noteq> []"
    and min: "Min (priority_count ` set m) < 3"
  shows "loop_inv m0 (increment (staff_id (hd (sort_key priority_count m))) m)
           (a @ [staff_id (hd (sort_key priority_count m))])"
proof -
  let ?k = "staff_id (hd (sort_key priority_count m))"
  have m: "m = counted m0 a" using inv by (simp add: loop_inv_def)
  have ne0: "m0 \<noteq> []" using ne m by (simp add: counted_eq_Nil)
  have "picked m \<in> set m" using ne by (rule picked_mem)
  hence "?k \<in> staff_id ` set m" by (simp add: picked_def)
  also have "staff_id ` set m = staff_id ` set m0"
    using staff_id_counted[of m0 a] m by (metis list.set_map)
  finally have kin: "?k \<in> staff_id ` set m0" .
  have hist: "\<forall>n < length (a @ [?k]). m0 \<noteq> [] \<and>
        Min (priority_count ` set (counted m0 (take n (a @ [?k])))) < 3 \<and>
        (a @ [?k]) ! n = staff_id (picked (counted m0 (take n (a @ [?k]))))"
  proof (intro allI impI)
    fix n assume n: "n < length (a @ [?k])"
    show "m0 \<noteq> [] \<and> Min (priority_count ` set (counted m0 (take n (a @ [?k])))) < 3 \<and>
        (a @ [?k]) ! n = staff_id (picked (counted m0 (take n (a @ [?k]))))"
    proof (cases "n < length a")
      case True
      thus ?thesis using inv by (simp add: loop_inv_def nth_append)
    next
      case False
      hence "n = length a" using n by simp
      thus ?thesis using ne0 min m by (simp add: picked_def)
    qed
  qed
  show ?thesis
    unfolding loop_inv_def
    using m lt kin inv hist by (simp add: increment_counted loop_inv_def)
qed

lemma consume_loop_inv:
  "loop_inv m0 (fst (consume m0 [])) (snd (consume m0 []))"
  by (rule consume_invariant[where I = "loop_inv m0", OF loop_inv_init loop_inv_step])

lemma staff_id_dict_put:
  "set (map staff_id (dict_put s m)) = insert (staff_id s) (set (map staff_id m))"
  by (induction m) auto

lemma set_dict_put: "set (dict_put s m) \<subseteq> insert s (set m)"
  by (induction m) auto

lemma distinct_dict_put:
  "distinct (map staff_id m) \<Longrightarrow> distinct (map staff_id (dict_put s m))"
proof (induction m)
  case Nil
  show ?case by simp
next
  case (Cons t ts)
  have "staff_id t \<noteq> staff_id s \<Longrightarrow> staff_id t \<notin> set (map staff_id (dict_put s ts))"
    using Cons.prems by (simp only: staff_id_dict_put) auto
  thus ?case using Cons by auto
qed

lemma dict_put_fresh: "staff_id s \<notin> staff_id ` set m \<Longrightarrow> dict_put s m = m @ [s]"
  by (induction m) auto

lemma foldl_dict_put_distinct:
  "distinct (map staff_id m) \<Longrightarrow> distinct (map staff_id (foldl (\<lambda>m s. dict_put s m) m rows))"
  by (induction rows arbitrary: m) (simp_all add: distinct_dict_put)

lemma distinct_build_staff_map: "distinct (map staff_id (build_staff_map rows))"
  by (simp add: build_staff_map_def foldl_dict_put_distinct)

lemma foldl_dict_put_set:
  "set (foldl (\<lambda>m s. dict_put s m) m rows) \<subseteq> set m \<union> set rows"
proof (induction rows arbitrary: m)
  case Nil
  show ?case by simp
next
  case (Cons r rows)
  have "set (foldl (\<lambda>m s. dict_put s m) (dict_put r m) rows) \<subseteq> set (dict_put r m) \<union> set rows"
    by (rule Cons.IH)
  thus ?case using set_dict_put[of r m] by auto
qed

lemma set_build_staff_map: "set (build_staff_map rows) \<subseteq> set rows"
  using foldl_dict_put_set[of "[]" rows] by (simp add: build_staff_map_def)

lemma foldl_dict_put_fresh:
  "distinct (map staff_id (m @ rows)) \<Longrightarrow> foldl (\<lambda>m s. dict_put s m) m rows = m @ rows"
proof (induction rows arbitrary: m)
  case Nil
  show ?case by simp
next
  case (Cons r rows)
  have fresh: "staff_id r \<notin> staff_id ` set m" using Cons.prems by auto
  have "distinct (map staff_id ((m @ [r]) @ rows))" using Cons.prems by simp
  hence "foldl (\<lambda>m s. dict_put s m) (m @ [r]) rows = (m @ [r]) @ rows" by (rule Cons.IH)
  thus ?case using fresh by (simp add: dict_put_fresh)
qed

lemma build_staff_map_distinct:
  "distinct (map staff_id rows) \<Longrightarrow> build_staff_map rows = rows"
  using foldl_dict_put_fresh[of "[]" rows] by (simp add: build_staff_map_def)

lemma increment_absent: "k \<notin> staff_id ` set m \<Longrightarrow> increment k m = m"
  by (induction m) (auto simp: increment_def)

lemma distinct_increment: "map staff_id (increment k m) = map staff_id m"
  by (simp add: increment_def comp_def)

lemma headroom_increment:
  "distinct (map staff_id m) \<Longrightarrow> s \<in> set m \<Longrightarrow> priority_count s < 3 \<Longrightarrow>
   headroom (increment (staff_id s) m) = headroom m - 1"
proof (induction m)
  case Nil
  thus ?case by simp
next
  case (Cons t ts)
  show ?case
  proof (cases "s = t")
    case True
    hence "staff_id s \<notin> staff_id ` set ts" using Cons.prems(1) by auto
    hence "increment (staff_id s) ts = ts" by (rule increment_absent)
    hence "increment (staff_id s) (t # ts) = t\<lparr>priority_count := priority_count t + 1\<rparr> # ts"
      using True by (simp add: increment_def)
    thus ?thesis using True Cons.prems(3) by (simp add: headroom_def)
  next
    case False
    hence mem: "s \<in> set ts" using Cons.prems(2) by simp
    hence "staff_id t \<noteq> staff_id s" using Cons.prems(1) by auto
    hence "increment (staff_id s) (t # ts) = t # increment (staff_id s) ts"
      by (simp add: increment_def)
    moreover have "headroom (increment (staff_id s) ts) = headroom ts - 1"
      using Cons.IH mem Cons.prems by simp
    ultimately show ?thesis by (simp add: headroom_def)
  qed
qed

lemma headroom_nonneg: "0 \<le> headroom m"
  by (induction m) (simp_all add: headroom_def)

lemma headroom_zero: "m = [] \<or> 3 \<le> Min (priority_count ` set m) \<Longrightarrow> headroom m = 0"
proof (cases "m = []")
  case True
  thus ?thesis by (simp add: headroom_def)
next
  case False
  assume "m = [] \<or> 3 \<le> Min (priority_count ` set m)"
  hence "3 \<le> Min (priority_count ` set m)" using False by simp
  hence "\<forall>s \<in> set m. 3 \<le> priority_count s" using False by simp
  hence "\<forall>s \<in> set m. max 0 (3 - priority_count s) = 0" by auto
  thus ?thesis unfolding headroom_def by (induction m) simp_all
qed

lemma headroom_ge_sum: "(\<Sum>s\<leftarrow>m. 3 - priority_count s) \<le> headroom m"
  by (induction m) (simp_all add: headroom_def)

lemma headroom_inv_step:
  assumes inv: "headroom_inv m0 m a" and lt: "length a < TOTAL_SLOTS" and ne: "m \<noteq> []"
    and min: "Min (priority_count ` set m) < 3"
  shows "headroom_inv m0 (increment (staff_id (hd (sort_key priority_count m))) m)
           (a @ [staff_id (hd (sort_key priority_count m))])"
proof -
  let ?s = "hd (sort_key priority_count m)"
  have mem: "?s \<in> set m" using picked_mem[OF ne] by (simp add: picked_def)
  have "priority_count ?s = Min (priority_count ` set m)" using ne by (rule key_hd_sort_key)
  hence "priority_count ?s < 3" using min by simp
  hence "headroom (increment (staff_id ?s) m) = headroom m - 1"
    using inv mem by (intro headroom_increment) (simp_all add: headroom_inv_def)
  thus ?thesis using inv lt by (simp add: headroom_inv_def distinct_increment)
qed

lemma consume_headroom_inv:
  assumes "distinct (map staff_id m0)"
  shows "headroom_inv m0 (fst (consume m0 [])) (snd (consume m0 []))"
proof (rule consume_invariant[where I = "headroom_inv m0"])
  show "headroom_inv m0 m0 []" using assms by (simp add: headroom_inv_def)
qed (rule headroom_inv_step)

lemma length_consume:
  assumes "distinct (map staff_id m0)"
  shows "int (length (snd (consume m0 []))) = min (int TOTAL_SLOTS) (headroom m0)"
proof -
  let ?m = "fst (consume m0 [])" and ?a = "snd (consume m0 [])"
  have inv: "headroom ?m + int (length ?a) = headroom m0" and le: "length ?a \<le> TOTAL_SLOTS"
    using consume_headroom_inv[OF assms] by (simp_all add: headroom_inv_def)
  have nn: "0 \<le> headroom ?m" by (rule headroom_nonneg)
  from consume_exit[of m0 "[]"] show ?thesis
  proof
    assume "TOTAL_SLOTS \<le> length ?a"
    thus ?thesis using inv le nn by linarith
  next
    assume "?m = [] \<or> 3 \<le> Min (priority_count ` set ?m)"
    hence "headroom ?m = 0" by (rule headroom_zero)
    thus ?thesis using inv le by linarith
  qed
qed

lemma same_id_same_staff:
  "distinct (map staff_id m) \<Longrightarrow> s \<in> set m \<Longrightarrow> t \<in> set m \<Longrightarrow> staff_id s = staff_id t \<Longrightarrow> s = t"
  by (meson distinct_map inj_onD)

lemma set_increment:
  "set (increment k m) =
     (\<lambda>s. if staff_id s = k then s\<lparr>priority_count := priority_count s + 1\<rparr> else s) ` set m"
  by (simp add: increment_def)

lemma Min_increment:
  assumes "m \<noteq> []"
  shows "Min (priority_count ` set m) \<le> Min (priority_count ` set (increment k m))"
proof -
  have ne: "increment k m \<noteq> []" using assms by (simp add: increment_def)
  have "\<forall>x \<in> set (increment k m). Min (priority_count ` set m) \<le> priority_count x"
  proof
    fix x assume "x \<in> set (increment k m)"
    then obtain s where s: "s \<in> set m"
      and x: "x = (if staff_id s = k then s\<lparr>priority_count := priority_count s + 1\<rparr> else s)"
      by (auto simp: set_increment)
    have "Min (priority_count ` set m) \<le> priority_count s" using s by simp
    thus "Min (priority_count ` set m) \<le> priority_count x" using x by (simp split: if_splits)
  qed
  thus ?thesis using ne by simp
qed

lemma assigned_inv_step:
  assumes inv: "assigned_inv m a" and lt: "length a < TOTAL_SLOTS" and ne: "m \<noteq> []"
    and min: "Min (priority_count ` set m) < 3"
  shows "assigned_inv (increment (staff_id (hd (sort_key priority_count m))) m)
           (a @ [staff_id (hd (sort_key priority_count m))])"
proof -
  let ?p = "hd (sort_key priority_count m)"
  let ?k = "staff_id ?p"
  let ?m' = "increment ?k m"
  have dist: "distinct (map staff_id m)" using inv by (simp add: assigned_inv_def)
  have mem: "?p \<in> set m" using picked_mem[OF ne] by (simp add: picked_def)
  have key: "priority_count ?p = Min (priority_count ` set m)" using ne by (rule key_hd_sort_key)
  have mono: "Min (priority_count ` set m) \<le> Min (priority_count ` set ?m')"
    using ne by (rule Min_increment)
  have "\<forall>x \<in> set ?m'. staff_id x \<in> set (a @ [?k]) \<longrightarrow>
          priority_count x \<le> 3 \<and> priority_count x \<le> Min (priority_count ` set ?m') + 1"
  proof (intro ballI impI)
    fix x assume xin: "x \<in> set ?m'" and xa: "staff_id x \<in> set (a @ [?k])"
    then obtain s where s: "s \<in> set m"
      and x: "x = (if staff_id s = ?k then s\<lparr>priority_count := priority_count s + 1\<rparr> else s)"
      by (auto simp: set_increment)
    show "priority_count x \<le> 3 \<and> priority_count x \<le> Min (priority_count ` set ?m') + 1"
    proof (cases "staff_id s = ?k")
      case True
      hence "s = ?p" using dist s mem by (intro same_id_same_staff)
      hence px: "priority_count x = Min (priority_count ` set m) + 1" using x True key by simp
      have "priority_count x \<le> 3" using px min by linarith
      moreover have "priority_count x \<le> Min (priority_count ` set ?m') + 1"
        using px mono by linarith
      ultimately show ?thesis by (simp only: simp_thms)
    next
      case False
      hence xs: "x = s" using x by simp
      hence "staff_id s \<in> set a" using xa False by auto
      hence "priority_count s \<le> 3" and "priority_count s \<le> Min (priority_count ` set m) + 1"
        using inv s by (simp_all add: assigned_inv_def)
      hence "priority_count s \<le> 3"
        and "priority_count s \<le> Min (priority_count ` set ?m') + 1"
        using mono by linarith+
      thus ?thesis using xs by (simp only: simp_thms)
    qed
  qed
  thus ?thesis using dist by (simp add: assigned_inv_def distinct_increment)
qed

lemma consume_assigned_inv:
  assumes "distinct (map staff_id m0)"
  shows "assigned_inv (fst (consume m0 [])) (snd (consume m0 []))"
proof (rule consume_invariant[where I = assigned_inv])
  show "assigned_inv m0 []" using assms by (simp add: assigned_inv_def)
qed (rule assigned_inv_step)

lemma consume_counted: "fst (consume m0 []) = counted m0 (snd (consume m0 []))"
  using consume_loop_inv[of m0] by (simp add: loop_inv_def)

lemma consume_ids: "set (snd (consume m0 [])) \<subseteq> staff_id ` set m0"
  using consume_loop_inv[of m0] by (simp add: loop_inv_def)

lemma consume_length_le: "length (snd (consume m0 [])) \<le> TOTAL_SLOTS"
  using consume_loop_inv[of m0] by (simp add: loop_inv_def)

lemma count_le_ceiling:
  assumes dist: "distinct (map staff_id m0)" and nn: "\<forall>s \<in> set m0. 0 \<le> priority_count s"
  shows "count_list (snd (consume m0 [])) k \<le> 3"
proof (cases "k \<in> set (snd (consume m0 []))")
  case False
  thus ?thesis by (simp add: count_list_0_iff)
next
  case True
  let ?a = "snd (consume m0 [])"
  from True consume_ids[of m0] obtain s where s: "s \<in> set m0" and k: "k = staff_id s" by auto
  let ?s' = "s\<lparr>priority_count := priority_count s + int (count_list ?a (staff_id s))\<rparr>"
  have "?s' \<in> set (counted m0 ?a)" using s by (auto simp: counted_def)
  hence "?s' \<in> set (fst (consume m0 []))" by (simp add: consume_counted[symmetric])
  moreover have "staff_id ?s' \<in> set ?a" using True k by simp
  ultimately have "priority_count ?s' \<le> 3"
    using consume_assigned_inv[OF dist] unfolding assigned_inv_def by blast
  thus ?thesis using nn s k by auto
qed

lemma final_count_le:
  assumes dist: "distinct (map staff_id m0)" and j: "j < length m0"
  shows "priority_count (fst (consume m0 []) ! j) \<le> max (priority_count (m0 ! j)) 3"
proof -
  let ?a = "snd (consume m0 [])"
  let ?s = "m0 ! j"
  have fin: "fst (consume m0 []) ! j =
      ?s\<lparr>priority_count := priority_count ?s + int (count_list ?a (staff_id ?s))\<rparr>"
    using j by (simp add: consume_counted[of m0] counted_def)
  show ?thesis
  proof (cases "staff_id ?s \<in> set ?a")
    case False
    thus ?thesis using fin by (simp add: count_list_0_iff)
  next
    case True
    have "fst (consume m0 []) ! j \<in> set (fst (consume m0 []))"
      using j by (simp add: consume_counted[of m0] length_counted)
    moreover have "staff_id (fst (consume m0 []) ! j) \<in> set ?a" using True fin by simp
    ultimately have "priority_count (fst (consume m0 []) ! j) \<le> 3"
      using consume_assigned_inv[OF dist] unfolding assigned_inv_def by blast
    thus ?thesis by simp
  qed
qed

section \<open>What the mapping loops do\<close>

lemma fill_Nil: "fill m a md [] [] st = st"
  by (simp add: fill_def)

lemma zip_drop_append:
  "zip (drop i xs) (ys @ zs) =
     zip (drop i xs) ys @ zip (drop (i + min (length ys) (length xs - i)) xs) zs"
proof -
  have "zip (drop i xs) (ys @ zs) =
      zip (take (length ys) (drop i xs)) ys @ zip (drop (length ys) (drop i xs)) zs"
    by (rule zip_append2)
  moreover have "zip (take (length ys) (drop i xs)) ys = zip (drop i xs) ys"
  proof -
    have "zip (take (length ys) (drop i xs)) ys = take (length ys) (zip (drop i xs) ys)"
      by (simp add: take_zip)
    thus ?thesis by simp
  qed
  moreover have "drop (length ys) (drop i xs) = drop (i + min (length ys) (length xs - i)) xs"
    by (cases "length ys \<le> length xs - i") (simp_all add: min_def add.commute)
  ultimately show ?thesis by simp
qed

lemma fill_fill:
  "fill m a md s2 e2 (fill m a md s1 e1 st) = fill m a md (s1 @ s2) (e1 @ e2) st"
  by (simp add: fill_def zip_drop_append min_def)

lemma seat_loop_fill:
  assumes keys: "\<forall>k \<in> set a. lookup m k \<noteq> None"
  shows "seat_loop m a md d g n st =
     Completed (fill m a md (replicate n (d, g)) (if length a - idx st < n then [d] else []) st)"
proof (induction n arbitrary: st)
  case 0
  show ?case by (simp add: fill_Nil)
next
  case (Suc n)
  show ?case
  proof (cases "length a \<le> idx st")
    case True
    thus ?thesis by (simp add: fill_def)
  next
    case False
    hence lt: "idx st < length a" by simp
    hence "a ! idx st \<in> set a" by simp
    then obtain s where s: "lookup m (a ! idx st) = Some s" using keys by blast
    let ?st1 = "st\<lparr>schedule_rows := schedule_rows st @
                      [\<lparr>row_staff_id = a ! idx st, row_month = md,
                        row_weekday = d, row_gate = g\<rparr>],
                    day_list := day_list st @
                      [\<lparr>entry_staff_id = a ! idx st, entry_name = staff_name s, entry_gate = g\<rparr>],
                    idx := idx st + 1\<rparr>"
    have one: "?st1 = fill m a md [(d, g)] [] st"
      using lt s by (simp add: fill_def Cons_nth_drop_Suc[symmetric] mk_row_def mk_entry_def name_of_def)
    have "seat_loop m a md d g (Suc n) st = seat_loop m a md d g n ?st1"
      using lt s by (simp add: Let_def)
    also have "\<dots> = Completed (fill m a md (replicate n (d, g))
        (if length a - idx ?st1 < n then [d] else []) ?st1)"
      by (rule Suc.IH)
    also have "fill m a md (replicate n (d, g)) (if length a - idx ?st1 < n then [d] else []) ?st1 =
          fill m a md (replicate (Suc n) (d, g)) (if length a - idx st < Suc n then [d] else []) st"
    proof -
      have c: "(length a - idx (fill m a md [(d, g)] [] st) < n) = (length a - idx st < Suc n)"
        using lt by (auto simp: fill_def)
      show ?thesis
        by (simp only: one c fill_fill) simp
    qed
    finally show ?thesis .
  qed
qed

lemma idx_fill: "idx (fill m a md slots extra st) = idx st + min (length slots) (length a - idx st)"
  by (simp add: fill_def)

lemma length_gate_slots: "length (gate_slots d gs) = 2 * length gs"
  by (induction gs) (simp_all add: gate_slots_def)

lemma gate_slots_Cons: "gate_slots d (g # gs) = replicate 2 (d, g) @ gate_slots d gs"
  by (simp add: gate_slots_def)

lemma gate_loop_fill:
  assumes keys: "\<forall>k \<in> set a. lookup m k \<noteq> None"
  shows "\<exists>extra. gate_loop m a md d gs st = Completed (fill m a md (gate_slots d gs) extra st) \<and>
           set extra = (if length a - idx st < 2 * length gs then {d} else {})"
proof (induction gs arbitrary: st)
  case Nil
  have "gate_loop m a md d [] st = Completed (fill m a md (gate_slots d []) [] st)"
    by (simp add: gate_slots_def fill_Nil)
  thus ?case by auto
next
  case (Cons g gs)
  let ?e1 = "if length a - idx st < 2 then [d] else []"
  let ?st1 = "fill m a md (replicate 2 (d, g)) ?e1 st"
  have s1: "seat_loop m a md d g 2 st = Completed ?st1"
    using keys by (rule seat_loop_fill)
  obtain e2 where g2: "gate_loop m a md d gs ?st1 = Completed (fill m a md (gate_slots d gs) e2 ?st1)"
    and se2: "set e2 = (if length a - idx ?st1 < 2 * length gs then {d} else {})"
    using Cons.IH[of ?st1] by blast
  have "gate_loop m a md d (g # gs) st = Completed (fill m a md (gate_slots d gs) e2 ?st1)"
    by (simp add: s1 g2)
  hence r: "gate_loop m a md d (g # gs) st = Completed (fill m a md (gate_slots d (g # gs)) (?e1 @ e2) st)"
    by (simp only: fill_fill gate_slots_Cons)
  have "set (?e1 @ e2) = (if length a - idx st < 2 * length (g # gs) then {d} else {})"
    using se2 by (auto simp: idx_fill min_def split: if_splits)
  thus ?case using r by blast
qed

lemma min_add_min: "min p L + min q (L - min p L) = min (p + q) (L::nat)"
proof (cases "p \<le> L")
  case True
  thus ?thesis by (auto simp: min_def)
next
  case False
  thus ?thesis by (auto simp: min_def)
qed

lemma length_slot_layout: "length (slot_layout days) = 6 * length days"
  by (induction days) (simp_all add: slot_layout_def length_gate_slots gates_def)

lemma slot_layout_Cons: "slot_layout (d # ds) = gate_slots d gates @ slot_layout ds"
  by (simp add: slot_layout_def)

lemma day_loop_result:
  assumes keys: "\<forall>k \<in> set a. lookup m k \<noteq> None"
  shows "\<exists>st'. day_loop m a md days st = Completed st' \<and>
     idx st' = idx st + min (6 * length days) (length a - idx st) \<and>
     schedule_rows st' =
       schedule_rows st @ map (mk_row md) (zip (drop (idx st) a) (slot_layout days)) \<and>
     set (shortage_days st') =
       set (shortage_days st) \<union> set (drop ((length a - idx st) div 6) days) \<and>
     scheduled_days st' = plan_days m a days (idx st) (scheduled_days st)"
proof (induction days arbitrary: st)
  case Nil
  show ?case by (simp add: slot_layout_def)
next
  case (Cons d ds)
  let ?st0 = "st\<lparr>day_list := []\<rparr>"
  obtain e where g: "gate_loop m a md d gates ?st0 = Completed (fill m a md (gate_slots d gates) e ?st0)"
    and se: "set e = (if length a - idx ?st0 < 2 * length gates then {d} else {})"
    using gate_loop_fill[OF keys, of md d gates ?st0] by blast
  let ?st1 = "fill m a md (gate_slots d gates) e ?st0"
  let ?st2 = "if day_list ?st1 \<noteq> []
     then ?st1\<lparr>scheduled_days := dict_set d (day_list ?st1) (scheduled_days ?st1)\<rparr> else ?st1"
  have i2: "idx ?st2 = idx st + min 6 (length a - idx st)"
    by (simp add: fill_def length_gate_slots gates_def)
  have r2: "schedule_rows ?st2 =
      schedule_rows st @ map (mk_row md) (zip (drop (idx st) a) (gate_slots d gates))"
    by (simp add: fill_def)
  have h2: "set (shortage_days ?st2) =
      set (shortage_days st) \<union> (if length a - idx st < 6 then {d} else {})"
    using se by (simp add: fill_def gates_def)
  obtain st' where run: "day_loop m a md ds ?st2 = Completed st'"
    and i': "idx st' = idx ?st2 + min (6 * length ds) (length a - idx ?st2)"
    and r': "schedule_rows st' =
       schedule_rows ?st2 @ map (mk_row md) (zip (drop (idx ?st2) a) (slot_layout ds))"
    and h': "set (shortage_days st') =
       set (shortage_days ?st2) \<union> set (drop ((length a - idx ?st2) div 6) ds)"
    and p': "scheduled_days st' = plan_days m a ds (idx ?st2) (scheduled_days ?st2)"
    using Cons.IH[of ?st2] by blast
  have whole: "day_loop m a md (d # ds) st = Completed st'"
    using run by (simp add: g)
  have idx: "idx st' = idx st + min (6 * length (d # ds)) (length a - idx st)"
  proof -
    have "min 6 (length a - idx st) + min (6 * length ds) (length a - idx st - min 6 (length a - idx st))
        = min (6 + 6 * length ds) (length a - idx st)"
      by (rule min_add_min)
    thus ?thesis unfolding i' i2 by (simp add: diff_diff_left[symmetric] del: diff_diff_left)
  qed
  have rows: "schedule_rows st' =
       schedule_rows st @ map (mk_row md) (zip (drop (idx st) a) (slot_layout (d # ds)))"
    unfolding r' r2 i2
    by (simp add: slot_layout_Cons zip_drop_append length_gate_slots gates_def)
  have short: "set (shortage_days st') =
       set (shortage_days st) \<union> set (drop ((length a - idx st) div 6) (d # ds))"
  proof (cases "length a - idx st < 6")
    case True
    hence "length a - idx ?st2 = 0" unfolding i2 by (simp add: min_def)
    thus ?thesis unfolding h' h2 using True by simp
  next
    case False
    hence i6: "idx ?st2 = idx st + 6" unfolding i2 by (simp add: min_def)
    have "(length a - idx st) div 6 = Suc ((length a - (idx st + 6)) div 6)"
    proof -
      have "length a - idx st = (length a - (idx st + 6)) + 6" using False by simp
      hence "(length a - idx st) div 6 = (length a - (idx st + 6)) div 6 + 1"
        by (simp only: div_add_self2)
      thus ?thesis by simp
    qed
    thus ?thesis unfolding h' h2 i6 using False by simp
  qed
  have dl: "day_list ?st1 = map (mk_entry m) (zip (drop (idx st) a) (gate_slots d gates))"
    by (simp add: fill_def)
  have sd1: "scheduled_days ?st1 = scheduled_days st" by (simp add: fill_def)
  have sd2: "scheduled_days ?st2 =
      (if map (mk_entry m) (zip (drop (idx st) a) (gate_slots d gates)) \<noteq> []
       then dict_set d (map (mk_entry m) (zip (drop (idx st) a) (gate_slots d gates)))
              (scheduled_days st)
       else scheduled_days st)"
    by (simp add: dl sd1) (simp add: fill_def)
  have plan: "scheduled_days st' = plan_days m a (d # ds) (idx st) (scheduled_days st)"
    unfolding p' sd2 i2 by (simp add: Let_def)
  show ?case using whole idx rows short plan by blast
qed

lemma lookup_found: "k \<in> staff_id ` set m \<Longrightarrow> lookup m k \<noteq> None"
  by (auto simp: lookup_def find_None_iff)

lemma consume_keys:
  "\<forall>k \<in> set (snd (consume m0 [])). lookup (fst (consume m0 [])) k \<noteq> None"
proof
  fix k assume "k \<in> set (snd (consume m0 []))"
  hence "k \<in> staff_id ` set m0" using consume_ids[of m0] by blast
  also have "staff_id ` set m0 = staff_id ` set (fst (consume m0 []))"
    using staff_id_counted[of m0 "snd (consume m0 [])"] consume_counted[of m0]
    by (metis list.set_map)
  finally show "lookup (fst (consume m0 [])) k \<noteq> None" by (rule lookup_found)
qed

lemma generate_result:
  assumes month: "get data ''month'' = JStr mo" and ne: "mo \<noteq> []"
  shows "\<exists>sh. generate_monthly_schedule clock list_of_set fetched data db =
     (Reply (Schedule mo
        (plan_days (fst (consume (build_staff_map fetched) []))
           (snd (consume (build_staff_map fetched) [])) weekdays 0 [])
        (list_of_set sh)) 200,
      \<lparr>staffs_table = persist_loop (mo @ ''-01'') clock 0
         (fst (consume (build_staff_map fetched) [])) (staffs_table db),
       schedule_table = schedule_table db @
         map (mk_row (mo @ ''-01''))
           (zip (snd (consume (build_staff_map fetched) [])) (slot_layout weekdays))\<rparr>) \<and>
     set sh = set (drop (length (snd (consume (build_staff_map fetched) [])) div 6) weekdays)"
proof -
  let ?mf = "fst (consume (build_staff_map fetched) [])"
  let ?a = "snd (consume (build_staff_map fetched) [])"
  let ?init = "\<lparr>idx = 0, shortage_days = [], day_list = [], scheduled_days = [],
                 schedule_rows = schedule_table db\<rparr>"
  have keys: "\<forall>k \<in> set ?a. lookup ?mf k \<noteq> None" by (rule consume_keys)
  obtain st' where run: "day_loop ?mf ?a (mo @ ''-01'') weekdays ?init = Completed st'"
    and rows: "schedule_rows st' = schedule_rows ?init @
         map (mk_row (mo @ ''-01'')) (zip (drop (idx ?init) ?a) (slot_layout weekdays))"
    and short: "set (shortage_days st') =
       set (shortage_days ?init) \<union> set (drop ((length ?a - idx ?init) div 6) weekdays)"
    and plan: "scheduled_days st' = plan_days ?mf ?a weekdays (idx ?init) (scheduled_days ?init)"
    using day_loop_result[OF keys, of "mo @ ''-01''" weekdays ?init] by blast
  have "generate_monthly_schedule clock list_of_set fetched data db =
     (Reply (Schedule mo (scheduled_days st') (list_of_set (shortage_days st'))) 200,
      \<lparr>staffs_table = persist_loop (mo @ ''-01'') clock 0 ?mf (staffs_table db),
       schedule_table = schedule_rows st'\<rparr>)"
    using month ne run
    by (simp add: generate_monthly_schedule_def Let_def split_beta)
  moreover have "scheduled_days st' = plan_days ?mf ?a weekdays 0 []" using plan by simp
  moreover have "schedule_rows st' = schedule_table db @
         map (mk_row (mo @ ''-01'')) (zip ?a (slot_layout weekdays))" using rows by simp
  moreover have "set (shortage_days st') = set (drop (length ?a div 6) weekdays)"
    using short by simp
  ultimately show ?thesis by (intro exI[of _ "shortage_days st'"]) (simp only: simp_thms)
qed

section \<open>The claims about the run\<close>

text \<open>
  C2. A run never produces more assignments than there are slots (36), and it produces
  exactly 36 whenever the eligible staff, fetched with unique ids, have at least 36
  assignments left below the ceiling, counted as the sum of 3 minus the initial
  \<open>priority_count\<close>.
\<close>

theorem assignment_count:
  assumes "distinct (map staff_id fetched)"
  shows "length (snd (consume (build_staff_map fetched) [])) \<le> TOTAL_SLOTS \<and> TOTAL_SLOTS = 36 \<and>
    (int TOTAL_SLOTS \<le> (\<Sum>s\<leftarrow>fetched. 3 - priority_count s) \<longrightarrow>
       length (snd (consume (build_staff_map fetched) [])) = TOTAL_SLOTS)"
proof -
  let ?a = "snd (consume fetched [])"
  have m0: "build_staff_map fetched = fetched" using assms by (rule build_staff_map_distinct)
  have len: "int (length ?a) = min (int TOTAL_SLOTS) (headroom fetched)"
    using assms by (rule length_consume)
  have le: "length ?a \<le> TOTAL_SLOTS" by (rule consume_length_le)
  have sum: "(\<Sum>s\<leftarrow>fetched. 3 - priority_count s) \<le> headroom fetched" by (rule headroom_ge_sum)
  have full: "length ?a = TOTAL_SLOTS"
    if "int TOTAL_SLOTS \<le> (\<Sum>s\<leftarrow>fetched. 3 - priority_count s)"
  proof -
    have "int TOTAL_SLOTS \<le> headroom fetched" using that sum by linarith
    hence "int (length ?a) = int TOTAL_SLOTS" using len by (simp only: min_absorb1)
    thus ?thesis by (simp only: of_nat_eq_iff)
  qed
  show ?thesis using le full TOTAL_SLOTS_eq by (simp only: m0) blast
qed

theorem assignment_count_witness:
  "distinct (map staff_id twelve_staff) \<and>
   int TOTAL_SLOTS \<le> (\<Sum>s\<leftarrow>twelve_staff. 3 - priority_count s) \<and>
   length (snd (consume (build_staff_map twelve_staff) [])) = 36"
proof -
  have d: "distinct (map staff_id twelve_staff)" by (simp add: twelve_staff_def ex_staff_def)
  have s: "int TOTAL_SLOTS \<le> (\<Sum>s\<leftarrow>twelve_staff. 3 - priority_count s)"
    by (simp add: twelve_staff_def ex_staff_def TOTAL_SLOTS_eq)
  show ?thesis using d s assignment_count [OF d] by simp
qed

text \<open>
  C3. When every fetched staff member has a non-negative \<open>priority_count\<close>, no staff id
  occurs more than 3 times among the assignments of the run; every entry of the staff map
  ends with its initial count plus the number of its assignments, and that final count
  is at most the maximum of its initial count and the ceiling 3.
\<close>

theorem ceiling_respected:
  assumes "\<forall>s \<in> set fetched. 0 \<le> priority_count s"
  shows "(\<forall>k. count_list (snd (consume (build_staff_map fetched) [])) k \<le> 3) \<and>
    map staff_id (fst (consume (build_staff_map fetched) [])) =
      map staff_id (build_staff_map fetched) \<and>
    (\<forall>j < length (build_staff_map fetched).
       priority_count (fst (consume (build_staff_map fetched) []) ! j) =
         priority_count (build_staff_map fetched ! j) +
         int (count_list (snd (consume (build_staff_map fetched) []))
                (staff_id (build_staff_map fetched ! j))) \<and>
       priority_count (fst (consume (build_staff_map fetched) []) ! j) \<le>
         max (priority_count (build_staff_map fetched ! j)) 3)"
proof -
  let ?m0 = "build_staff_map fetched"
  have dist: "distinct (map staff_id ?m0)" by (rule distinct_build_staff_map)
  have nn: "\<forall>s \<in> set ?m0. 0 \<le> priority_count s"
    using assms set_build_staff_map[of fetched] by blast
  have a: "\<forall>k. count_list (snd (consume ?m0 [])) k \<le> 3"
    using count_le_ceiling[OF dist nn] by blast
  have b: "map staff_id (fst (consume ?m0 [])) = map staff_id ?m0"
    by (simp add: consume_counted[of ?m0] staff_id_counted)
  have c: "\<forall>j < length ?m0.
       priority_count (fst (consume ?m0 []) ! j) =
         priority_count (?m0 ! j) + int (count_list (snd (consume ?m0 [])) (staff_id (?m0 ! j))) \<and>
       priority_count (fst (consume ?m0 []) ! j) \<le> max (priority_count (?m0 ! j)) 3"
  proof (intro allI impI conjI)
    fix j assume j: "j < length ?m0"
    show "priority_count (fst (consume ?m0 []) ! j) =
         priority_count (?m0 ! j) + int (count_list (snd (consume ?m0 [])) (staff_id (?m0 ! j)))"
      using j by (simp add: consume_counted[of ?m0] counted_def)
    show "priority_count (fst (consume ?m0 []) ! j) \<le> max (priority_count (?m0 ! j)) 3"
      using dist j by (rule final_count_le)
  qed
  show ?thesis using a b c by (simp only: simp_thms)
qed

theorem ceiling_respected_witness:
  "0 \<le> priority_count (ex_staff ''A'' False 0) \<and> 0 \<le> priority_count (ex_staff ''B'' False 2) \<and>
   snd (consume (build_staff_map two_staff) []) = [''A'', ''A'', ''A'', ''B''] \<and>
   count_list (snd (consume (build_staff_map two_staff) [])) ''A'' \<le> 3 \<and>
   priority_count (fst (consume (build_staff_map two_staff) []) ! 1) \<le>
     max (priority_count (build_staff_map two_staff ! 1)) 3"
proof -
  have h: "\<forall>s \<in> set two_staff. 0 \<le> priority_count s"
    by (simp add: two_staff_def ex_staff_def)
  have len: "1 < length (build_staff_map two_staff)"
    by (simp add: two_staff_def ex_staff_def build_staff_map_def)
  have e: "snd (consume (build_staff_map two_staff) []) = [''A'', ''A'', ''A'', ''B'']"
    by code_simp
  note t = ceiling_respected [OF h]
  have c1: "count_list (snd (consume (build_staff_map two_staff) [])) ''A'' \<le> 3"
    using t by blast
  have c2: "priority_count (fst (consume (build_staff_map two_staff) []) ! 1) \<le>
     max (priority_count (build_staff_map two_staff ! 1)) 3"
    using t len by blast
  have c0: "0 \<le> priority_count (ex_staff ''A'' False 0) \<and> 0 \<le> priority_count (ex_staff ''B'' False 2)"
    by (simp add: ex_staff_def)
  show ?thesis using c0 c1 c2 e by (simp only: simp_thms)
qed

text \<open>
  C6. After a run that assigned anybody, the largest and the smallest \<open>priority_count\<close>
  among the staff who were assigned differ by at most 1; so the difference is at most 1
  more than the difference of the same staff before the run. No exception for exhaustion
  is needed.
\<close>

theorem fairness_spread:
  assumes "snd (consume (build_staff_map fetched) []) \<noteq> []"
  shows "spread (fst (consume (build_staff_map fetched) [])) (snd (consume (build_staff_map fetched) [])) \<le> 1 \<and>
    spread (fst (consume (build_staff_map fetched) [])) (snd (consume (build_staff_map fetched) []))
      \<le> spread (build_staff_map fetched) (snd (consume (build_staff_map fetched) [])) + 1"
proof -
  let ?init = "build_staff_map fetched"
  let ?m = "fst (consume ?init [])" and ?a = "snd (consume ?init [])"
  let ?A = "set (map priority_count (filter (\<lambda>s. staff_id s \<in> set ?a) ?m))"
  let ?B = "set (map priority_count (filter (\<lambda>s. staff_id s \<in> set ?a) ?init))"
  have dist: "distinct (map staff_id ?init)" by (rule distinct_build_staff_map)
  have inv: "assigned_inv ?m ?a" by (rule consume_assigned_inv[OF dist])
  obtain k where k: "k \<in> set ?a" using assms by (cases ?a) auto
  then obtain s0 where s0: "s0 \<in> set ?init" "staff_id s0 = k" using consume_ids[of ?init] by auto
  have ids: "staff_id ` set ?m = staff_id ` set ?init"
    using staff_id_counted[of ?init ?a] consume_counted[of ?init] by (metis list.set_map)
  then obtain s where s: "s \<in> set ?m" "staff_id s = k" using s0 by (metis imageE imageI)
  have neA: "?A \<noteq> {}" using s k by auto
  have neB: "?B \<noteq> {}" using s0 k by auto
  have finA: "finite ?A" and finB: "finite ?B" by simp_all
  have mne: "?m \<noteq> []" using s by auto
  let ?mu = "Min (priority_count ` set ?m)"
  have upper: "\<forall>x \<in> ?A. x \<le> ?mu + 1"
    using inv unfolding assigned_inv_def by auto
  have lower: "\<forall>x \<in> ?A. ?mu \<le> x" by auto
  have "Max ?A \<le> ?mu + 1" using finA neA upper by (intro Max.boundedI) blast+
  moreover have "?mu \<le> Min ?A" using finA neA lower by (intro Min.boundedI) blast+
  ultimately have one: "Max ?A - Min ?A \<le> 1" by linarith
  obtain b where b: "b \<in> ?B" using neB by (auto simp only: ex_in_conv[symmetric])
  have "Min ?B \<le> b" using finB b by (rule Min_le)
  moreover have "b \<le> Max ?B" using finB b by (rule Max_ge)
  ultimately have "Min ?B \<le> Max ?B" by linarith
  hence zero: "0 \<le> Max ?B - Min ?B" by linarith
  show ?thesis unfolding spread_def using one zero by linarith
qed

theorem fairness_spread_witness:
  "snd (consume (build_staff_map two_staff) []) \<noteq> [] \<and>
   spread (build_staff_map two_staff) (snd (consume (build_staff_map two_staff) [])) = 2 \<and>
   spread (fst (consume (build_staff_map two_staff) [])) (snd (consume (build_staff_map two_staff) [])) \<le> 1"
proof -
  have e: "consume (build_staff_map two_staff) [] =
     ([ex_staff ''A'' False 3, ex_staff ''B'' False 3], [''A'', ''A'', ''A'', ''B''])"
    by code_simp
  have h: "snd (consume (build_staff_map two_staff) []) \<noteq> []" by (simp add: e)
  have b: "spread (build_staff_map two_staff) [''A'', ''A'', ''A'', ''B''] = 2"
    by (simp add: spread_def two_staff_def ex_staff_def build_staff_map_def)
  show ?thesis using fairness_spread [OF h] h b by (simp add: e)
qed

lemma inserted_slots_generate:
  assumes "get data ''month'' = JStr mo" "mo \<noteq> []"
  shows "inserted_slots db (snd (generate_monthly_schedule clock los fetched data db)) =
     zip (snd (consume (build_staff_map fetched) [])) (slot_layout weekdays)"
proof -
  obtain sh where "generate_monthly_schedule clock los fetched data db =
     (Reply (Schedule mo
        (plan_days (fst (consume (build_staff_map fetched) []))
           (snd (consume (build_staff_map fetched) [])) weekdays 0 [])
        (los sh)) 200,
      \<lparr>staffs_table = persist_loop (mo @ ''-01'') clock 0
         (fst (consume (build_staff_map fetched) [])) (staffs_table db),
       schedule_table = schedule_table db @
         map (mk_row (mo @ ''-01''))
           (zip (snd (consume (build_staff_map fetched) [])) (slot_layout weekdays))\<rparr>)"
    using generate_result[OF assms] by blast
  thus ?thesis by (simp add: inserted_slots_def comp_def mk_row_def)
qed

lemma plan_of_generate:
  assumes "get data ''month'' = JStr mo" "mo \<noteq> []"
  shows "plan_of (fst (generate_monthly_schedule clock los fetched data db)) =
     Some (plan_days (fst (consume (build_staff_map fetched) []))
           (snd (consume (build_staff_map fetched) [])) weekdays 0 [])"
proof -
  obtain sh where "generate_monthly_schedule clock los fetched data db =
     (Reply (Schedule mo
        (plan_days (fst (consume (build_staff_map fetched) []))
           (snd (consume (build_staff_map fetched) [])) weekdays 0 [])
        (los sh)) 200,
      \<lparr>staffs_table = persist_loop (mo @ ''-01'') clock 0
         (fst (consume (build_staff_map fetched) [])) (staffs_table db),
       schedule_table = schedule_table db @
         map (mk_row (mo @ ''-01''))
           (zip (snd (consume (build_staff_map fetched) [])) (slot_layout weekdays))\<rparr>)"
    using generate_result[OF assms] by blast
  thus ?thesis by (simp add: plan_of_def)
qed

text \<open>
  C5. Two scheduling requests that fetch the same snapshot of eligible staff (same rows,
  same order) return the same plan and insert the same (staff, weekday, gate) rows in the
  same order, whatever the months asked for, the clocks, the stores and the order in
  which the set of shortage days is listed. Both requests do return a plan.
\<close>

theorem same_snapshot_same_plan:
  assumes "get data1 ''month'' = JStr mo1" "mo1 \<noteq> []"
    and "get data2 ''month'' = JStr mo2" "mo2 \<noteq> []"
  shows "plan_of (fst (generate_monthly_schedule clock1 los1 fetched data1 db1)) \<noteq> None \<and>
    plan_of (fst (generate_monthly_schedule clock1 los1 fetched data1 db1)) =
      plan_of (fst (generate_monthly_schedule clock2 los2 fetched data2 db2)) \<and>
    inserted_slots db1 (snd (generate_monthly_schedule clock1 los1 fetched data1 db1)) =
      inserted_slots db2 (snd (generate_monthly_schedule clock2 los2 fetched data2 db2))"
  by (simp add: plan_of_generate[OF assms(1,2)] plan_of_generate[OF assms(3,4)]
      inserted_slots_generate[OF assms(1,2)] inserted_slots_generate[OF assms(3,4)])

theorem same_snapshot_same_plan_witness:
  "get [''month'' \<mapsto> JStr ''2024-05''] ''month'' = JStr ''2024-05'' \<and> ''2024-05'' \<noteq> [] \<and>
   get [''month'' \<mapsto> JStr ''2024-06''] ''month'' = JStr ''2024-06'' \<and> ''2024-06'' \<noteq> [] \<and>
   plan_of (fst (generate_monthly_schedule (\<lambda>n. ''t1'') remdups two_staff
                   [''month'' \<mapsto> JStr ''2024-05''] empty_db)) =
   plan_of (fst (generate_monthly_schedule (\<lambda>n. ''t2'') rev two_staff
                   [''month'' \<mapsto> JStr ''2024-06'']
                   \<lparr>staffs_table = two_staff, schedule_table = []\<rparr>))"
proof -
  have h1: "get [''month'' \<mapsto> JStr ''2024-05''] ''month'' = JStr ''2024-05''"
    by (simp add: get_def)
  have h2: "''2024-05'' \<noteq> []" by simp
  have h3: "get [''month'' \<mapsto> JStr ''2024-06''] ''month'' = JStr ''2024-06''"
    by (simp add: get_def)
  have h4: "''2024-06'' \<noteq> []" by simp
  show ?thesis
    using same_snapshot_same_plan [OF h1 h2 h3 h4, of "\<lambda>n. ''t1''" remdups two_staff empty_db
        "\<lambda>n. ''t2''" rev "\<lparr>staffs_table = two_staff, schedule_table = []\<rparr>"] h1 h3
    by (simp only: simp_thms h2 h4)
qed

lemma three_loop:
  assumes d: "staff_id sa \<noteq> staff_id sb" "staff_id sa \<noteq> staff_id sc" "staff_id sb \<noteq> staff_id sc"
    and z: "priority_count sa = 0" "priority_count sb = 0" "priority_count sc = 0"
  shows "consume (build_staff_map [sa, sb, sc]) [] =
     ([sa\<lparr>priority_count := 3\<rparr>, sb\<lparr>priority_count := 3\<rparr>, sc\<lparr>priority_count := 3\<rparr>],
      [staff_id sa, staff_id sb, staff_id sc, staff_id sa, staff_id sb, staff_id sc,
       staff_id sa, staff_id sb, staff_id sc])"
  using d z d[symmetric]
  by (simp add: build_staff_map_def consume.simps TOTAL_SLOTS_eq increment_def)

lemma shortage_of_generate:
  assumes "get data ''month'' = JStr mo" "mo \<noteq> []" and so: "set_order los"
  shows "\<exists>sh. shortage_of (fst (generate_monthly_schedule clock los fetched data db)) = Some sh \<and>
     distinct sh \<and>
     set sh = set (drop (length (snd (consume (build_staff_map fetched) [])) div 6) weekdays)"
proof -
  obtain sh where r: "generate_monthly_schedule clock los fetched data db =
     (Reply (Schedule mo
        (plan_days (fst (consume (build_staff_map fetched) []))
           (snd (consume (build_staff_map fetched) [])) weekdays 0 [])
        (los sh)) 200,
      \<lparr>staffs_table = persist_loop (mo @ ''-01'') clock 0
         (fst (consume (build_staff_map fetched) [])) (staffs_table db),
       schedule_table = schedule_table db @
         map (mk_row (mo @ ''-01''))
           (zip (snd (consume (build_staff_map fetched) [])) (slot_layout weekdays))\<rparr>)"
    and s: "set sh = set (drop (length (snd (consume (build_staff_map fetched) [])) div 6) weekdays)"
    using generate_result[OF assms(1,2)] by blast
  have "distinct (los sh)" and "set (los sh) = set sh" using so by (simp_all add: set_order_def)
  thus ?thesis using r s by (simp add: shortage_of_def)
qed

text \<open>
  C7. Three eligible staff members with different ids and \<open>priority_count\<close> 0, in the
  fetch order A, B, C: the run assigns A, B, C, A, B, C, A, B, C (9 assignments), leaves
  each of them at 3 and 27 slots unfilled, inserts 9 rows, and the returned shortage
  list holds each of Tuesday to Saturday once and not Monday.
\<close>

theorem three_staff_example:
  assumes d: "distinct [staff_id sa, staff_id sb, staff_id sc]"
    and z: "priority_count sa = 0" "priority_count sb = 0" "priority_count sc = 0"
    and month: "get data ''month'' = JStr mo" "mo \<noteq> []" and so: "set_order los"
  shows "snd (consume (build_staff_map [sa, sb, sc]) []) =
      [staff_id sa, staff_id sb, staff_id sc, staff_id sa, staff_id sb, staff_id sc,
       staff_id sa, staff_id sb, staff_id sc] \<and>
    length (snd (consume (build_staff_map [sa, sb, sc]) [])) = 9 \<and>
    map priority_count (fst (consume (build_staff_map [sa, sb, sc]) [])) = [3, 3, 3] \<and>
    TOTAL_SLOTS - length (snd (consume (build_staff_map [sa, sb, sc]) [])) = 27 \<and>
    length (inserted_slots db
      (snd (generate_monthly_schedule clock los [sa, sb, sc] data db))) = 9 \<and>
    (\<exists>sh. shortage_of (fst (generate_monthly_schedule clock los [sa, sb, sc] data db)) = Some sh \<and>
       distinct sh \<and>
       set sh = {''Tuesday'', ''Wednesday'', ''Thursday'', ''Friday'', ''Saturday''} \<and>
       ''Monday'' \<notin> set sh)"
proof -
  have ne: "staff_id sa \<noteq> staff_id sb" "staff_id sa \<noteq> staff_id sc" "staff_id sb \<noteq> staff_id sc"
    using d by simp_all
  have loop: "consume (build_staff_map [sa, sb, sc]) [] =
     ([sa\<lparr>priority_count := 3\<rparr>, sb\<lparr>priority_count := 3\<rparr>, sc\<lparr>priority_count := 3\<rparr>],
      [staff_id sa, staff_id sb, staff_id sc, staff_id sa, staff_id sb, staff_id sc,
       staff_id sa, staff_id sb, staff_id sc])"
    using ne z by (rule three_loop)
  have ins: "length (inserted_slots db
      (snd (generate_monthly_schedule clock los [sa, sb, sc] data db))) = 9"
    by (simp add: inserted_slots_generate[OF month] loop length_slot_layout weekdays_def)
  obtain sh where sh: "shortage_of (fst (generate_monthly_schedule clock los [sa, sb, sc] data db)) = Some sh"
    "distinct sh"
    "set sh = set (drop (length (snd (consume (build_staff_map [sa, sb, sc]) [])) div 6) weekdays)"
    using shortage_of_generate[OF month so] by blast
  have "set sh = {''Tuesday'', ''Wednesday'', ''Thursday'', ''Friday'', ''Saturday''}"
    using sh(3) by (simp add: loop weekdays_def)
  hence "\<exists>sh. shortage_of (fst (generate_monthly_schedule clock los [sa, sb, sc] data db)) = Some sh \<and>
       distinct sh \<and>
       set sh = {''Tuesday'', ''Wednesday'', ''Thursday'', ''Friday'', ''Saturday''} \<and>
       ''Monday'' \<notin> set sh"
    using sh(1,2) by auto
  thus ?thesis using ins by (simp add: loop TOTAL_SLOTS_eq)
qed

theorem three_staff_example_witness:
  "distinct [staff_id (ex_staff ''A'' False 0), staff_id (ex_staff ''B'' False 0),
             staff_id (ex_staff ''C'' False 0)] \<and>
   priority_count (ex_staff ''A'' False 0) = 0 \<and>
   get [''month'' \<mapsto> JStr ''2024-05''] ''month'' = JStr ''2024-05'' \<and>
   set_order remdups \<and>
   snd (consume (build_staff_map [ex_staff ''A'' False 0, ex_staff ''B'' False 0,
                                  ex_staff ''C'' False 0]) []) =
     [''A'', ''B'', ''C'', ''A'', ''B'', ''C'', ''A'', ''B'', ''C''] \<and>
   shortage_of (fst (generate_monthly_schedule (\<lambda>n. ''t'') remdups
       [ex_staff ''A'' False 0, ex_staff ''B'' False 0, ex_staff ''C'' False 0]
       [''month'' \<mapsto> JStr ''2024-05''] empty_db)) =
     Some [''Tuesday'', ''Wednesday'', ''Thursday'', ''Friday'', ''Saturday'']"
proof -
  have h1: "distinct [staff_id (ex_staff ''A'' False 0), staff_id (ex_staff ''B'' False 0),
             staff_id (ex_staff ''C'' False 0)]" by (simp add: ex_staff_def)
  have h2: "priority_count (ex_staff ''A'' False 0) = 0" "priority_count (ex_staff ''B'' False 0) = 0"
    "priority_count (ex_staff ''C'' False 0) = 0" by (simp_all add: ex_staff_def)
  have h3: "get [''month'' \<mapsto> JStr ''2024-05''] ''month'' = JStr ''2024-05''"
    by (simp add: get_def)
  have h4: "''2024-05'' \<noteq> []" by simp
  have h5: "set_order remdups" by (simp add: set_order_def)
  have e: "shortage_of (fst (generate_monthly_schedule (\<lambda>n. ''t'') remdups
       [ex_staff ''A'' False 0, ex_staff ''B'' False 0, ex_staff ''C'' False 0]
       [''month'' \<mapsto> JStr ''2024-05''] empty_db)) =
     Some [''Tuesday'', ''Wednesday'', ''Thursday'', ''Friday'', ''Saturday'']"
    by code_simp
  have "snd (consume (build_staff_map [ex_staff ''A'' False 0, ex_staff ''B'' False 0,
                                  ex_staff ''C'' False 0]) []) =
     [staff_id (ex_staff ''A'' False 0), staff_id (ex_staff ''B'' False 0),
      staff_id (ex_staff ''C'' False 0), staff_id (ex_staff ''A'' False 0),
      staff_id (ex_staff ''B'' False 0), staff_id (ex_staff ''C'' False 0),
      staff_id (ex_staff ''A'' False 0), staff_id (ex_staff ''B'' False 0),
      staff_id (ex_staff ''C'' False 0)]"
    using three_staff_example [OF h1 h2 h3 h4 h5] by blast
  hence "snd (consume (build_staff_map [ex_staff ''A'' False 0, ex_staff ''B'' False 0,
                                  ex_staff ''C'' False 0]) []) =
     [''A'', ''B'', ''C'', ''A'', ''B'', ''C'', ''A'', ''B'', ''C'']"
    by (simp add: ex_staff_def)
  thus ?thesis using h1 h2(1) h3 h5 e by (simp only: simp_thms)
qed

lemma fst_gate_slots: "x \<in> set (gate_slots d gs) \<Longrightarrow> fst x = d"
  by (auto simp: gate_slots_def)

lemma filter_zip_gate_slots:
  "filter (\<lambda>x. fst (snd x) = d) (zip ys (gate_slots d0 gs)) =
     (if d = d0 then zip ys (gate_slots d0 gs) else [])"
proof -
  have "\<forall>x \<in> set (zip ys (gate_slots d0 gs)). fst (snd x) = d0"
  proof
    fix x assume "x \<in> set (zip ys (gate_slots d0 gs))"
    hence "(fst x, snd x) \<in> set (zip ys (gate_slots d0 gs))" by simp
    hence "snd x \<in> set (gate_slots d0 gs)" by (rule set_zip_rightD)
    thus "fst (snd x) = d0" by (rule fst_gate_slots)
  qed
  thus ?thesis by (auto simp: filter_empty_conv filter_id_conv)
qed

lemma filter_zip_layout_absent:
  "d \<notin> set days \<Longrightarrow> filter (\<lambda>x. fst (snd x) = d) (zip xs (slot_layout days)) = []"
proof (induction days arbitrary: xs)
  case Nil
  show ?case by (simp add: slot_layout_def)
next
  case (Cons d0 ds)
  thus ?case
    by (simp add: slot_layout_Cons zip_append2 filter_zip_gate_slots)
qed

lemma short_iff_rows:
  assumes "distinct days" "d \<in> set days"
  shows "d \<in> set (drop (length xs div 6) days) \<longleftrightarrow>
     length (filter (\<lambda>x. fst (snd x) = d) (zip xs (slot_layout days))) < 6"
  using assms
proof (induction days arbitrary: xs)
  case Nil
  thus ?case by simp
next
  case (Cons d0 ds)
  have len6: "length (gate_slots d0 gates) = 6" by (simp add: length_gate_slots gates_def)
  have split: "zip xs (slot_layout (d0 # ds)) =
      zip (take 6 xs) (gate_slots d0 gates) @ zip (drop 6 xs) (slot_layout ds)"
    by (simp add: slot_layout_Cons zip_append2 len6)
  have dropc: "set (drop (length xs div 6) (d0 # ds)) =
      (if length xs < 6 then set (d0 # ds) else set (drop (length (drop 6 xs) div 6) ds))"
  proof (cases "length xs < 6")
    case True
    thus ?thesis by simp
  next
    case False
    hence "length xs = (length xs - 6) + 6" by simp
    hence "length xs div 6 = (length xs - 6) div 6 + 1" by (simp only: div_add_self2)
    thus ?thesis using False by simp
  qed
  show ?case
  proof (cases "d = d0")
    case True
    hence "d \<notin> set ds" using Cons.prems by simp
    hence none: "filter (\<lambda>x. fst (snd x) = d) (zip (drop 6 xs) (slot_layout ds)) = []"
      by (rule filter_zip_layout_absent)
    have notin: "d \<notin> set (drop (length (drop 6 xs) div 6) ds)"
      using \<open>d \<notin> set ds\<close> in_set_dropD[of d _ ds] by auto
    have "length (filter (\<lambda>x. fst (snd x) = d) (zip xs (slot_layout (d0 # ds)))) = min (length xs) 6"
      using True none by (simp add: split filter_zip_gate_slots len6)
    thus ?thesis using True notin by (simp only: dropc) (auto simp: min_def)
  next
    case False
    hence mem: "d \<in> set ds" using Cons.prems by simp
    have dist: "distinct ds" using Cons.prems by simp
    have ih: "d \<in> set (drop (length (drop 6 xs) div 6) ds) \<longleftrightarrow>
       length (filter (\<lambda>x. fst (snd x) = d) (zip (drop 6 xs) (slot_layout ds))) < 6"
      using Cons.IH[OF dist mem] .
    have cnt: "filter (\<lambda>x. fst (snd x) = d) (zip xs (slot_layout (d0 # ds))) =
       filter (\<lambda>x. fst (snd x) = d) (zip (drop 6 xs) (slot_layout ds))"
      using False by (simp add: split filter_zip_gate_slots)
    show ?thesis
    proof (cases "length xs < 6")
      case True
      thus ?thesis using mem by (simp add: dropc cnt)
    next
      case False
      thus ?thesis using ih by (simp only: dropc cnt if_False)
    qed
  qed
qed

lemma distinct_weekdays: "distinct weekdays"
  by (simp add: weekdays_def)

lemma nth_in_drop_iff:
  assumes "distinct xs" "k < length xs"
  shows "xs ! k \<in> set (drop q xs) \<longleftrightarrow> q \<le> k"
proof
  assume "xs ! k \<in> set (drop q xs)"
  then obtain j where j: "j < length (drop q xs)" "drop q xs ! j = xs ! k"
    by (auto simp: in_set_conv_nth)
  hence "xs ! (q + j) = xs ! k" and "q + j < length xs" by auto
  hence "q + j = k" using assms by (simp add: nth_eq_iff_index_eq)
  thus "q \<le> k" by simp
next
  assume "q \<le> k"
  hence "drop q xs ! (k - q) = xs ! k" and "k - q < length (drop q xs)"
    using assms(2) by auto
  thus "xs ! k \<in> set (drop q xs)" by (metis nth_mem)
qed

lemma div6_le_iff: "(L::nat) div 6 \<le> k \<longleftrightarrow> L < 6 * (k + 1)"
proof -
  have "L div 6 < Suc k \<longleftrightarrow> L < Suc k * 6" by (rule div_less_iff_less_mult) simp
  thus ?thesis by (simp add: less_Suc_eq_le mult.commute)
qed

text \<open>
  C4. The shortage list returned holds no weekday twice and only weekdays. The weekday
  at position \<open>k\<close> of the fixed order is in it exactly when the run produced fewer than
  \<open>6 * (k + 1)\<close> assignments, that is when the assignments ran out before its 3 gates
  times 2 seats were filled; equivalently, when fewer than 6 rows were inserted for it.
  The rows inserted are the assignments paired with the slots in layout order, one row
  for every assignment: no slot is filled from a later day and no assignment is dropped.
\<close>

theorem shortage_days_reported:
  assumes "get data ''month'' = JStr mo" "mo \<noteq> []" and "set_order los"
  shows "\<exists>sh. shortage_of (fst (generate_monthly_schedule clock los fetched data db)) = Some sh \<and>
     distinct sh \<and> set sh \<subseteq> set weekdays \<and>
     (\<forall>k < length weekdays.
        weekdays ! k \<in> set sh \<longleftrightarrow>
        length (snd (consume (build_staff_map fetched) [])) < 6 * (k + 1)) \<and>
     (\<forall>d. d \<in> set sh \<longleftrightarrow>
        d \<in> set weekdays \<and>
        length (filter (\<lambda>x. fst (snd x) = d)
          (inserted_slots db (snd (generate_monthly_schedule clock los fetched data db)))) < 6) \<and>
     inserted_slots db (snd (generate_monthly_schedule clock los fetched data db)) =
       zip (snd (consume (build_staff_map fetched) [])) (slot_layout weekdays) \<and>
     length (inserted_slots db (snd (generate_monthly_schedule clock los fetched data db))) =
       length (snd (consume (build_staff_map fetched) []))"
proof -
  let ?a = "snd (consume (build_staff_map fetched) [])"
  obtain sh where sh: "shortage_of (fst (generate_monthly_schedule clock los fetched data db)) = Some sh"
    "distinct sh" "set sh = set (drop (length ?a div 6) weekdays)"
    using shortage_of_generate[OF assms] by blast
  have ins: "inserted_slots db (snd (generate_monthly_schedule clock los fetched data db)) =
     zip ?a (slot_layout weekdays)"
    using assms(1,2) by (rule inserted_slots_generate)
  have sub: "set sh \<subseteq> set weekdays" using sh(3) by (simp add: set_drop_subset)
  have byrows: "d \<in> set sh \<longleftrightarrow>
        d \<in> set weekdays \<and>
        length (filter (\<lambda>x. fst (snd x) = d) (zip ?a (slot_layout weekdays))) < 6" for d
  proof (cases "d \<in> set weekdays")
    case True
    thus ?thesis using short_iff_rows[OF distinct_weekdays True, of ?a] sh(3) by simp
  next
    case False
    thus ?thesis using sub by blast
  qed
  have byasg: "weekdays ! k \<in> set sh \<longleftrightarrow> length ?a < 6 * (k + 1)"
    if "k < length weekdays" for k
    using nth_in_drop_iff[OF distinct_weekdays that, of "length ?a div 6"] sh(3)
    by (simp only: div6_le_iff)
  have "length ?a \<le> length (slot_layout weekdays)"
    using consume_length_le[of "build_staff_map fetched"]
    by (simp add: length_slot_layout TOTAL_SLOTS_def)
  hence len: "length (inserted_slots db (snd (generate_monthly_schedule clock los fetched data db))) =
      length ?a"
    by (simp add: ins)
  show ?thesis
    using sh(1,2) sub byasg byrows len by (intro exI[of _ sh]) (simp add: ins)
qed

theorem shortage_days_reported_witness:
  "get [''month'' \<mapsto> JStr ''2024-05''] ''month'' = JStr ''2024-05'' \<and> set_order remdups \<and>
   length (snd (consume (build_staff_map three_staff) [])) = 9 \<and>
   shortage_of (fst (generate_monthly_schedule (\<lambda>n. ''t'') remdups three_staff
       [''month'' \<mapsto> JStr ''2024-05''] empty_db)) =
     Some [''Tuesday'', ''Wednesday'', ''Thursday'', ''Friday'', ''Saturday''] \<and>
   inserted_slots empty_db (snd (generate_monthly_schedule (\<lambda>n. ''t'') remdups three_staff
       [''month'' \<mapsto> JStr ''2024-05''] empty_db)) =
     zip (snd (consume (build_staff_map three_staff) [])) (slot_layout weekdays) \<and>
   length (filter (\<lambda>x. fst (snd x) = ''Monday'')
     (inserted_slots empty_db (snd (generate_monthly_schedule (\<lambda>n. ''t'') remdups three_staff
       [''month'' \<mapsto> JStr ''2024-05''] empty_db)))) = 6 \<and>
   length (filter (\<lambda>x. fst (snd x) = ''Tuesday'')
     (inserted_slots empty_db (snd (generate_monthly_schedule (\<lambda>n. ''t'') remdups three_staff
       [''month'' \<mapsto> JStr ''2024-05''] empty_db)))) = 3"
proof -
  have h1: "get [''month'' \<mapsto> JStr ''2024-05''] ''month'' = JStr ''2024-05''"
    by (simp add: get_def)
  have h2: "''2024-05'' \<noteq> []" by simp
  have h3: "set_order remdups" by (simp add: set_order_def)
  have e0: "length (snd (consume (build_staff_map three_staff) [])) = 9"
    by code_simp
  have e1: "shortage_of (fst (generate_monthly_schedule (\<lambda>n. ''t'') remdups three_staff
       [''month'' \<mapsto> JStr ''2024-05''] empty_db)) =
     Some [''Tuesday'', ''Wednesday'', ''Thursday'', ''Friday'', ''Saturday'']"
    by code_simp
  have e2: "length (filter (\<lambda>x. fst (snd x) = ''Monday'')
     (inserted_slots empty_db (snd (generate_monthly_schedule (\<lambda>n. ''t'') remdups three_staff
       [''month'' \<mapsto> JStr ''2024-05''] empty_db)))) = 6"
    by code_simp
  have e3: "length (filter (\<lambda>x. fst (snd x) = ''Tuesday'')
     (inserted_slots empty_db (snd (generate_monthly_schedule (\<lambda>n. ''t'') remdups three_staff
       [''month'' \<mapsto> JStr ''2024-05''] empty_db)))) = 3"
    by code_simp
  obtain sh where ins: "inserted_slots empty_db (snd (generate_monthly_schedule (\<lambda>n. ''t'')
       remdups three_staff [''month'' \<mapsto> JStr ''2024-05''] empty_db)) =
     zip (snd (consume (build_staff_map three_staff) [])) (slot_layout weekdays)"
    using shortage_days_reported [OF h1 h2 h3, of "\<lambda>n. ''t''" three_staff empty_db]
    by (elim exE conjE) (rule that)
  show ?thesis by (intro conjI h1 h3 e0 e1 ins e2 e3)
qed

lemma persist_loop_map:
  "persist_loop md clock n m table = map (persist_row md clock n m) table"
proof (induction m arbitrary: n table)
  case Nil
  have "map (persist_row md clock n []) table = table" by (rule map_idI) simp
  thus ?case by simp
next
  case (Cons s rest)
  show ?case by (simp add: Cons.IH comp_def)
qed

lemma persist_row_absent:
  "staff_id r \<notin> staff_id ` set m \<Longrightarrow> persist_row md clock n m r = r"
  by (induction m arbitrary: n) auto

lemma persist_row_id: "staff_id (persist_row md clock n m r) = staff_id r"
  by (induction m arbitrary: n r) auto

lemma persist_row_present:
  "distinct (map staff_id m) \<Longrightarrow> s \<in> set m \<Longrightarrow> staff_id s = staff_id r \<Longrightarrow>
   priority_count (persist_row md clock n m r) = priority_count s \<and>
   priority_updated_month (persist_row md clock n m r) = Some md"
proof (induction m arbitrary: n r)
  case Nil
  thus ?case by simp
next
  case (Cons t ts)
  show ?case
  proof (cases "s = t")
    case True
    let ?r' = "r\<lparr>priority_count := priority_count t, priority_updated_month := Some md,
                 updated_at := Some (clock n)\<rparr>"
    have "staff_id ?r' \<notin> staff_id ` set ts" using Cons.prems True by auto
    hence "persist_row md clock (Suc n) ts ?r' = ?r'" by (rule persist_row_absent)
    thus ?thesis using True Cons.prems(3) by simp
  next
    case False
    hence mem: "s \<in> set ts" using Cons.prems(2) by simp
    hence "staff_id t \<noteq> staff_id s" using Cons.prems(1) by auto
    hence "persist_row md clock n (t # ts) r = persist_row md clock (Suc n) ts r"
      using Cons.prems(3) by simp
    thus ?thesis using Cons.IH[of r "Suc n"] Cons.prems mem by simp
  qed
qed

lemma distinct_count_list: "distinct xs \<longleftrightarrow> (\<forall>x. count_list xs x \<le> 1)"
proof (induction xs)
  case Nil
  show ?case by simp
next
  case (Cons a xs)
  show ?case
  proof
    assume d: "distinct (a # xs)"
    hence "count_list xs a = 0" by (simp add: count_list_0_iff)
    thus "\<forall>x. count_list (a # xs) x \<le> 1" using d Cons.IH by auto
  next
    assume c: "\<forall>x. count_list (a # xs) x \<le> 1"
    hence "count_list (a # xs) a \<le> 1" by blast
    hence "count_list xs a = 0" by simp
    hence na: "a \<notin> set xs" by (simp add: count_list_0_iff)
    have "\<forall>x. count_list xs x \<le> 1"
    proof
      fix x
      have "count_list xs x \<le> count_list (a # xs) x" by simp
      thus "count_list xs x \<le> 1" using c le_trans by blast
    qed
    thus "distinct (a # xs)" using na Cons.IH by simp
  qed
qed

lemma fetch_answer_facts:
  assumes fa: "fetch_answer db fetched" and dist: "distinct (map staff_id (staffs_table db))"
  shows "set fetched = {r \<in> set (staffs_table db). \<not> busy_9_10 r}"
    and "distinct (map staff_id fetched)"
proof -
  let ?el = "filter (\<lambda>s. \<not> busy_9_10 s) (staffs_table db)"
  have cnt: "\<forall>r. count_list fetched r = count_list ?el r"
    using fa by (simp add: fetch_answer_def)
  have "r \<in> set fetched \<longleftrightarrow> r \<in> set ?el" for r
  proof -
    have "(count_list fetched r = 0) = (count_list ?el r = 0)" using cnt by simp
    hence "(r \<notin> set fetched) = (r \<notin> set ?el)" by (simp only: count_list_0_iff)
    thus ?thesis by blast
  qed
  hence "set fetched = set ?el" by blast
  thus s: "set fetched = {r \<in> set (staffs_table db). \<not> busy_9_10 r}" by auto
  have dt: "distinct (staffs_table db)" using dist by (simp add: distinct_map)
  hence "distinct ?el" by simp
  hence "\<forall>x. count_list ?el x \<le> 1" using distinct_count_list[of ?el] by blast
  hence "\<forall>x. count_list fetched x \<le> 1" using cnt by simp
  hence df: "distinct fetched" using distinct_count_list[of fetched] by blast
  have "inj_on staff_id (set (staffs_table db))" using dist by (simp add: distinct_map)
  hence "inj_on staff_id (set fetched)" using s by (auto intro: inj_on_subset)
  thus "distinct (map staff_id fetched)" using df by (simp add: distinct_map)
qed

text \<open>
  C10. When the staff ids of the table are unique and the month is given, the write-back
  leaves every row with \<open>busy_9_10\<close> true exactly as it was, and gives every row with
  \<open>busy_9_10\<close> false the month stamp of the run and its count plus the number of its
  assignments, which may be none.
\<close>

theorem write_back_frame:
  assumes fa: "fetch_answer db fetched" and dist: "distinct (map staff_id (staffs_table db))"
    and month: "get data ''month'' = JStr mo" "mo \<noteq> []"
  shows "length (staffs_table (snd (generate_monthly_schedule clock los fetched data db))) =
      length (staffs_table db) \<and>
    (\<forall>i < length (staffs_table db).
       (busy_9_10 (staffs_table db ! i) \<longrightarrow>
          staffs_table (snd (generate_monthly_schedule clock los fetched data db)) ! i =
            staffs_table db ! i) \<and>
       (\<not> busy_9_10 (staffs_table db ! i) \<longrightarrow>
          staff_id (staffs_table (snd (generate_monthly_schedule clock los fetched data db)) ! i) =
            staff_id (staffs_table db ! i) \<and>
          priority_updated_month
            (staffs_table (snd (generate_monthly_schedule clock los fetched data db)) ! i) =
            Some (mo @ ''-01'') \<and>
          priority_count
            (staffs_table (snd (generate_monthly_schedule clock los fetched data db)) ! i) =
            priority_count (staffs_table db ! i) +
            int (count_list (snd (consume (build_staff_map fetched) []))
                   (staff_id (staffs_table db ! i)))))"
proof -
  let ?tbl = "staffs_table db"
  let ?a = "snd (consume (build_staff_map fetched) [])"
  let ?mf = "fst (consume (build_staff_map fetched) [])"
  let ?md = "mo @ ''-01''"
  let ?tbl' = "staffs_table (snd (generate_monthly_schedule clock los fetched data db))"
  have sf: "set fetched = {r \<in> set ?tbl. \<not> busy_9_10 r}"
    and df: "distinct (map staff_id fetched)"
    using fetch_answer_facts[OF fa dist] by blast+
  have m0: "build_staff_map fetched = fetched" using df by (rule build_staff_map_distinct)
  have mf: "?mf = counted fetched ?a" using consume_counted[of "build_staff_map fetched"]
    by (simp add: m0)
  have dmf: "distinct (map staff_id ?mf)" using df by (simp add: mf staff_id_counted)
  have ids: "staff_id ` set ?mf = staff_id ` set fetched"
    using staff_id_counted[of fetched ?a] mf by (metis list.set_map)
  obtain sh where "generate_monthly_schedule clock los fetched data db =
     (Reply (Schedule mo (plan_days ?mf ?a weekdays 0 []) (los sh)) 200,
      \<lparr>staffs_table = persist_loop ?md clock 0 ?mf ?tbl,
       schedule_table = schedule_table db @ map (mk_row ?md) (zip ?a (slot_layout weekdays))\<rparr>)"
    using generate_result[OF month] by blast
  hence tbl': "?tbl' = map (persist_row ?md clock 0 ?mf) ?tbl"
    by (simp add: persist_loop_map)
  have inj: "inj_on staff_id (set ?tbl)" using dist by (simp add: distinct_map)
  have row: "(busy_9_10 (?tbl ! i) \<longrightarrow> ?tbl' ! i = ?tbl ! i) \<and>
       (\<not> busy_9_10 (?tbl ! i) \<longrightarrow>
          staff_id (?tbl' ! i) = staff_id (?tbl ! i) \<and>
          priority_updated_month (?tbl' ! i) = Some ?md \<and>
          priority_count (?tbl' ! i) =
            priority_count (?tbl ! i) + int (count_list ?a (staff_id (?tbl ! i))))"
    if i: "i < length ?tbl" for i
  proof -
    let ?r = "?tbl ! i"
    have rin: "?r \<in> set ?tbl" using i by simp
    have at: "?tbl' ! i = persist_row ?md clock 0 ?mf ?r" using i by (simp add: tbl')
    show ?thesis
    proof (cases "busy_9_10 ?r")
      case True
      have "staff_id ?r \<notin> staff_id ` set fetched"
      proof
        assume "staff_id ?r \<in> staff_id ` set fetched"
        then obtain r' where r': "r' \<in> set fetched" "staff_id r' = staff_id ?r" by auto
        hence "r' \<in> set ?tbl" "\<not> busy_9_10 r'" using sf by auto
        moreover hence "r' = ?r" using inj rin r'(2) by (meson inj_onD)
        ultimately show False using True by simp
      qed
      hence "persist_row ?md clock 0 ?mf ?r = ?r" using ids by (intro persist_row_absent) simp
      thus ?thesis using True at by simp
    next
      case False
      hence "?r \<in> set fetched" using sf rin by simp
      let ?s = "?r\<lparr>priority_count := priority_count ?r + int (count_list ?a (staff_id ?r))\<rparr>"
      have sin: "?s \<in> set ?mf" using \<open>?r \<in> set fetched\<close> by (auto simp: mf counted_def)
      have sid: "staff_id ?s = staff_id ?r" by simp
      have "priority_count (persist_row ?md clock 0 ?mf ?r) = priority_count ?s \<and>
            priority_updated_month (persist_row ?md clock 0 ?mf ?r) = Some ?md"
        using dmf sin sid by (rule persist_row_present)
      thus ?thesis using False at by (simp add: persist_row_id)
    qed
  qed
  have "length ?tbl' = length ?tbl" by (simp add: tbl')
  thus ?thesis using row by blast
qed

theorem write_back_frame_witness:
  "fetch_answer db_example [ex_staff ''A'' False 0, ex_staff ''C'' False 3] \<and>
   distinct (map staff_id (staffs_table db_example)) \<and>
   get [''month'' \<mapsto> JStr ''2024-05''] ''month'' = JStr ''2024-05'' \<and>
   staffs_table (snd (generate_monthly_schedule (\<lambda>n. ''t'') remdups
      [ex_staff ''A'' False 0, ex_staff ''C'' False 3]
      [''month'' \<mapsto> JStr ''2024-05''] db_example)) =
     [ex_staff ''A'' False 3 \<lparr>priority_updated_month := Some ''2024-05-01'', updated_at := Some ''t''\<rparr>,
      ex_staff ''B'' True 1,
      ex_staff ''C'' False 3 \<lparr>priority_updated_month := Some ''2024-05-01'', updated_at := Some ''t''\<rparr>] \<and>
   staffs_table (snd (generate_monthly_schedule (\<lambda>n. ''t'') remdups
      [ex_staff ''A'' False 0, ex_staff ''C'' False 3]
      [''month'' \<mapsto> JStr ''2024-05''] db_example)) ! 1 = staffs_table db_example ! 1"
proof -
  have h1: "fetch_answer db_example [ex_staff ''A'' False 0, ex_staff ''C'' False 3]"
    by (simp add: fetch_answer_def db_example_def ex_staff_def)
  have h2: "distinct (map staff_id (staffs_table db_example))"
    by (simp add: db_example_def ex_staff_def)
  have h3: "get [''month'' \<mapsto> JStr ''2024-05''] ''month'' = JStr ''2024-05''"
    by (simp add: get_def)
  have h4: "''2024-05'' \<noteq> []" by simp
  have e: "staffs_table (snd (generate_monthly_schedule (\<lambda>n. ''t'') remdups
      [ex_staff ''A'' False 0, ex_staff ''C'' False 3]
      [''month'' \<mapsto> JStr ''2024-05''] db_example)) =
     [ex_staff ''A'' False 3 \<lparr>priority_updated_month := Some ''2024-05-01'', updated_at := Some ''t''\<rparr>,
      ex_staff ''B'' True 1,
      ex_staff ''C'' False 3 \<lparr>priority_updated_month := Some ''2024-05-01'', updated_at := Some ''t''\<rparr>]"
    by code_simp
  have b: "1 < length (staffs_table db_example)" "busy_9_10 (staffs_table db_example ! 1)"
    by (simp_all add: db_example_def ex_staff_def)
  have "staffs_table (snd (generate_monthly_schedule (\<lambda>n. ''t'') remdups
      [ex_staff ''A'' False 0, ex_staff ''C'' False 3]
      [''month'' \<mapsto> JStr ''2024-05''] db_example)) ! 1 = staffs_table db_example ! 1"
    using write_back_frame [OF h1 h2 h3 h4, of "\<lambda>n. ''t''" remdups] b by blast
  thus ?thesis using h1 h2 h3 e by (simp only: simp_thms)
qed

lemma increment_nth:
  assumes dist: "distinct (map staff_id m)" and i: "i < length m"
  shows "increment (staff_id (m ! i)) m =
     m[i := (m ! i)\<lparr>priority_count := priority_count (m ! i) + 1\<rparr>]"
proof (rule nth_equalityI)
  show "length (increment (staff_id (m ! i)) m) =
      length (m[i := (m ! i)\<lparr>priority_count := priority_count (m ! i) + 1\<rparr>])"
    by (simp add: increment_def)
next
  fix j assume "j < length (increment (staff_id (m ! i)) m)"
  hence j: "j < length m" by (simp add: increment_def)
  have "staff_id (m ! j) = staff_id (m ! i) \<longleftrightarrow> j = i"
    using dist i j nth_eq_iff_index_eq[of "map staff_id m" j i] by simp
  thus "increment (staff_id (m ! i)) m ! j =
      m[i := (m ! i)\<lparr>priority_count := priority_count (m ! i) + 1\<rparr>] ! j"
    using i j by (auto simp: increment_def nth_list_update)
qed

lemma first_minimum:
  assumes ne: "m \<noteq> []"
  shows "\<exists>i < length m. hd (sort_key priority_count m) = m ! i \<and>
     (\<forall>j < length m. priority_count (m ! i) \<le> priority_count (m ! j)) \<and>
     (\<forall>j < i. priority_count (m ! i) < priority_count (m ! j))"
proof -
  let ?mu = "Min (priority_count ` set m)"
  let ?P = "\<lambda>y. priority_count y = ?mu"
  have "?mu \<in> priority_count ` set m" using ne by (intro Min_in) simp_all
  then obtain y where "y \<in> set m" "?P y" by auto
  hence "filter ?P m \<noteq> []" by (auto simp: filter_empty_conv)
  then obtain s ys where f: "filter ?P m = s # ys" by (cases "filter ?P m") auto
  hence "\<exists>us vs. m = us @ s # vs \<and> (\<forall>u \<in> set us. \<not> ?P u) \<and> ?P s \<and> ys = filter ?P vs"
    by (simp only: filter_eq_Cons_iff)
  then obtain us vs where m: "m = us @ s # vs" and us: "\<forall>u \<in> set us. \<not> ?P u" and s: "?P s"
    by blast
  have hd: "hd (sort_key priority_count m) = s"
    using hd_sort_key_first[OF ne, of priority_count] f by simp
  have at: "m ! length us = s" by (simp add: m)
  have lt: "length us < length m" by (simp add: m)
  have low: "\<forall>j < length m. ?mu \<le> priority_count (m ! j)" by simp
  have strict: "\<forall>j < length us. ?mu < priority_count (m ! j)"
  proof (intro allI impI)
    fix j assume j: "j < length us"
    hence "m ! j = us ! j" by (simp add: m nth_append)
    moreover have "us ! j \<in> set us" using j by simp
    ultimately have "priority_count (m ! j) \<noteq> ?mu" using us by auto
    moreover have "?mu \<le> priority_count (m ! j)" using low j lt by simp
    ultimately show "?mu < priority_count (m ! j)" by linarith
  qed
  show ?thesis using lt hd at s low strict by (intro exI[of _ "length us"]) simp
qed

lemma consume_history:
  assumes "n < length (snd (consume m0 []))"
  shows "m0 \<noteq> []"
    and "Min (priority_count ` set (counted m0 (take n (snd (consume m0 []))))) < 3"
    and "snd (consume m0 []) ! n = staff_id (picked (counted m0 (take n (snd (consume m0 [])))))"
  using consume_loop_inv[of m0] assms unfolding loop_inv_def by blast+

lemma run_reaches:
  "n \<le> length (snd (consume m0 [])) \<Longrightarrow>
   consume m0 [] = consume (counted m0 (take n (snd (consume m0 [])))) (take n (snd (consume m0 [])))"
proof (induction n)
  case 0
  show ?case by (simp add: counted_Nil)
next
  case (Suc n)
  let ?a = "snd (consume m0 [])"
  let ?m = "counted m0 (take n ?a)"
  have n: "n < length ?a" using Suc.prems by simp
  have ne: "?m \<noteq> []" using consume_history(1)[OF n] by (simp add: counted_eq_Nil)
  have min: "Min (priority_count ` set ?m) < 3" using n by (rule consume_history(2))
  have pick: "?a ! n = staff_id (hd (sort_key priority_count ?m))"
    using consume_history(3)[OF n] by (simp add: picked_def)
  have "length ?a \<le> TOTAL_SLOTS" by (rule consume_length_le)
  hence lt: "length (take n ?a) < TOTAL_SLOTS" using n by simp
  have "consume m0 [] = consume ?m (take n ?a)" using Suc.IH n by simp
  also have "\<dots> = consume (increment (staff_id (hd (sort_key priority_count ?m))) ?m)
                         (take n ?a @ [staff_id (hd (sort_key priority_count ?m))])"
    using lt ne min by (rule consume_step)
  also have "\<dots> = consume (counted m0 (take n ?a @ [?a ! n])) (take n ?a @ [?a ! n])"
    by (simp only: pick[symmetric] increment_counted)
  also have "take n ?a @ [?a ! n] = take (Suc n) ?a"
    using n by (simp add: take_Suc_conv_app_nth)
  finally show ?case .
qed

lemma selection_at:
  assumes dist: "distinct (map staff_id m0)" and n: "n < length (snd (consume m0 []))"
  shows "\<exists>i < length m0.
     snd (consume m0 []) ! n = staff_id (m0 ! i) \<and>
     priority_count (counted m0 (take n (snd (consume m0 []))) ! i) < 3 \<and>
     (\<forall>j < length m0. priority_count (counted m0 (take n (snd (consume m0 []))) ! i)
          \<le> priority_count (counted m0 (take n (snd (consume m0 []))) ! j)) \<and>
     (\<forall>j < i. priority_count (counted m0 (take n (snd (consume m0 []))) ! i)
          < priority_count (counted m0 (take n (snd (consume m0 []))) ! j)) \<and>
     counted m0 (take (Suc n) (snd (consume m0 []))) =
       (counted m0 (take n (snd (consume m0 []))))
         [i := (counted m0 (take n (snd (consume m0 []))) ! i)
            \<lparr>priority_count :=
               priority_count (counted m0 (take n (snd (consume m0 []))) ! i) + 1\<rparr>]"
proof -
  let ?a = "snd (consume m0 [])"
  let ?m = "counted m0 (take n ?a)"
  have ne: "?m \<noteq> []" using consume_history(1)[OF n] by (simp add: counted_eq_Nil)
  have min: "Min (priority_count ` set ?m) < 3" using n by (rule consume_history(2))
  have pick: "?a ! n = staff_id (hd (sort_key priority_count ?m))"
    using consume_history(3)[OF n] by (simp add: picked_def)
  have len: "length ?m = length m0" by (rule length_counted)
  have dm: "distinct (map staff_id ?m)" using dist by (simp add: staff_id_counted)
  obtain i where i: "i < length ?m" and hd: "hd (sort_key priority_count ?m) = ?m ! i"
    and low: "\<forall>j < length ?m. priority_count (?m ! i) \<le> priority_count (?m ! j)"
    and strict: "\<forall>j < i. priority_count (?m ! i) < priority_count (?m ! j)"
    using first_minimum[OF ne] by blast
  have key: "priority_count (?m ! i) = Min (priority_count ` set ?m)"
    using key_hd_sort_key[OF ne, of priority_count] by (simp only: hd)
  have below: "priority_count (?m ! i) < 3" using key min by linarith
  have "staff_id (?m ! i) = staff_id (m0 ! i)"
    using i len staff_id_counted[of m0 "take n ?a"] by (metis nth_map)
  hence id: "?a ! n = staff_id (m0 ! i)" using pick hd by simp
  have "counted m0 (take (Suc n) ?a) = counted m0 (take n ?a @ [?a ! n])"
    using n by (simp add: take_Suc_conv_app_nth)
  also have "\<dots> = increment (?a ! n) ?m" by (simp only: increment_counted)
  also have "\<dots> = increment (staff_id (?m ! i)) ?m" using pick hd by simp
  also have "\<dots> = ?m[i := (?m ! i)\<lparr>priority_count := priority_count (?m ! i) + 1\<rparr>]"
    using dm i by (rule increment_nth)
  finally have upd: "counted m0 (take (Suc n) ?a) =
      ?m[i := (?m ! i)\<lparr>priority_count := priority_count (?m ! i) + 1\<rparr>]" .
  show ?thesis
    using i id below low strict upd unfolding len by blast
qed

lemma run_stops:
  "length (snd (consume m0 [])) = TOTAL_SLOTS \<or> m0 = [] \<or>
   3 \<le> Min (priority_count ` set (fst (consume m0 [])))"
proof -
  have le: "length (snd (consume m0 [])) \<le> TOTAL_SLOTS" by (rule consume_length_le)
  have "fst (consume m0 []) = [] \<longleftrightarrow> m0 = []"
    by (simp add: consume_counted[of m0] counted_eq_Nil)
  thus ?thesis using consume_exit[of m0 "[]"] le by auto
qed

text \<open>
  C1. For a fetch with unique ids the staff map is the fetch, in its order. Let \<open>a\<close> be
  the assignments that the run returns. Before its \<open>n\<close>-th assignment (counted from 0)
  the loop is in the state in which every entry has its initial count plus the number of
  its ids among the first \<open>n\<close> assignments, and the run is the loop continued from that
  state. The \<open>n\<close>-th assignment is the id of the entry at the first position whose count
  in that state equals the minimum over all entries; that count is below 3, and the next
  state is that state with exactly 1 added to the count of this entry and nothing else
  changed. The counters returned are the initial ones plus the assignments made. The
  loop stops only with 36 assignments or with nobody below 3. The rows inserted pair
  the \<open>n\<close>-th assignment with the \<open>n\<close>-th slot of the layout.
\<close>

theorem progressive_selection:
  assumes "distinct (map staff_id fetched)"
    and "get data ''month'' = JStr mo" and "mo \<noteq> []"
  shows "build_staff_map fetched = fetched \<and>
    (\<forall>n < length (snd (consume (build_staff_map fetched) [])).
       consume (build_staff_map fetched) [] =
         consume (counted fetched (take n (snd (consume (build_staff_map fetched) []))))
           (take n (snd (consume (build_staff_map fetched) []))) \<and>
       (\<exists>i < length fetched.
          snd (consume (build_staff_map fetched) []) ! n = staff_id (fetched ! i) \<and>
          priority_count
            (counted fetched (take n (snd (consume (build_staff_map fetched) []))) ! i) < 3 \<and>
          (\<forall>j < length fetched.
             priority_count
               (counted fetched (take n (snd (consume (build_staff_map fetched) []))) ! i)
             \<le> priority_count
               (counted fetched (take n (snd (consume (build_staff_map fetched) []))) ! j)) \<and>
          (\<forall>j < i.
             priority_count
               (counted fetched (take n (snd (consume (build_staff_map fetched) []))) ! i)
             < priority_count
               (counted fetched (take n (snd (consume (build_staff_map fetched) []))) ! j)) \<and>
          counted fetched (take (Suc n) (snd (consume (build_staff_map fetched) []))) =
            (counted fetched (take n (snd (consume (build_staff_map fetched) []))))
              [i := (counted fetched (take n (snd (consume (build_staff_map fetched) []))) ! i)
                 \<lparr>priority_count :=
                    priority_count
                      (counted fetched
                         (take n (snd (consume (build_staff_map fetched) []))) ! i) + 1\<rparr>])) \<and>
    fst (consume (build_staff_map fetched) []) =
      counted fetched (snd (consume (build_staff_map fetched) [])) \<and>
    (length (snd (consume (build_staff_map fetched) [])) = TOTAL_SLOTS \<or> fetched = [] \<or>
     3 \<le> Min (priority_count ` set (fst (consume (build_staff_map fetched) [])))) \<and>
    inserted_slots db (snd (generate_monthly_schedule clock los fetched data db)) =
      zip (snd (consume (build_staff_map fetched) [])) (slot_layout weekdays) \<and>
    length (inserted_slots db (snd (generate_monthly_schedule clock los fetched data db))) =
      length (snd (consume (build_staff_map fetched) []))"
proof -
  have m0: "build_staff_map fetched = fetched" using assms(1) by (rule build_staff_map_distinct)
  let ?a = "snd (consume fetched [])"
  have iter: "\<forall>n < length ?a.
       consume fetched [] = consume (counted fetched (take n ?a)) (take n ?a) \<and>
       (\<exists>i < length fetched.
          ?a ! n = staff_id (fetched ! i) \<and>
          priority_count (counted fetched (take n ?a) ! i) < 3 \<and>
          (\<forall>j < length fetched.
             priority_count (counted fetched (take n ?a) ! i)
             \<le> priority_count (counted fetched (take n ?a) ! j)) \<and>
          (\<forall>j < i.
             priority_count (counted fetched (take n ?a) ! i)
             < priority_count (counted fetched (take n ?a) ! j)) \<and>
          counted fetched (take (Suc n) ?a) =
            (counted fetched (take n ?a))
              [i := (counted fetched (take n ?a) ! i)
                 \<lparr>priority_count := priority_count (counted fetched (take n ?a) ! i) + 1\<rparr>])"
  proof (intro allI impI conjI)
    fix n assume n: "n < length ?a"
    show "consume fetched [] = consume (counted fetched (take n ?a)) (take n ?a)"
      using n by (intro run_reaches) simp
    show "\<exists>i < length fetched.
          ?a ! n = staff_id (fetched ! i) \<and>
          priority_count (counted fetched (take n ?a) ! i) < 3 \<and>
          (\<forall>j < length fetched.
             priority_count (counted fetched (take n ?a) ! i)
             \<le> priority_count (counted fetched (take n ?a) ! j)) \<and>
          (\<forall>j < i.
             priority_count (counted fetched (take n ?a) ! i)
             < priority_count (counted fetched (take n ?a) ! j)) \<and>
          counted fetched (take (Suc n) ?a) =
            (counted fetched (take n ?a))
              [i := (counted fetched (take n ?a) ! i)
                 \<lparr>priority_count := priority_count (counted fetched (take n ?a) ! i) + 1\<rparr>]"
      using assms(1) n by (rule selection_at)
  qed
  have fin: "fst (consume fetched []) = counted fetched ?a" by (rule consume_counted)
  have stop: "length ?a = TOTAL_SLOTS \<or> fetched = [] \<or>
     3 \<le> Min (priority_count ` set (fst (consume fetched [])))"
    by (rule run_stops)
  have ins: "inserted_slots db (snd (generate_monthly_schedule clock los fetched data db)) =
      zip ?a (slot_layout weekdays)"
    using inserted_slots_generate[OF assms(2,3), of db clock los fetched] by (simp only: m0)
  have "length ?a \<le> length (slot_layout weekdays)"
    using consume_length_le[of fetched] by (simp add: length_slot_layout TOTAL_SLOTS_def)
  hence len: "length (inserted_slots db (snd (generate_monthly_schedule clock los fetched data db))) =
      length ?a"
    by (simp add: ins)
  show ?thesis unfolding m0 using iter fin stop ins len by (simp only: simp_thms)
qed

theorem progressive_selection_witness:
  "distinct (map staff_id two_staff) \<and>
   get [''month'' \<mapsto> JStr ''2024-05''] ''month'' = JStr ''2024-05'' \<and>
   snd (consume (build_staff_map two_staff) []) = [''A'', ''A'', ''A'', ''B''] \<and>
   fst (consume (build_staff_map two_staff) []) = counted two_staff [''A'', ''A'', ''A'', ''B''] \<and>
   consume (build_staff_map two_staff) [] =
     consume (counted two_staff [''A'', ''A'']) [''A'', ''A''] \<and>
   inserted_slots empty_db (snd (generate_monthly_schedule (\<lambda>n. ''t'') remdups two_staff
       [''month'' \<mapsto> JStr ''2024-05''] empty_db)) =
     [(''A'', ''Monday'', ''Gate A''), (''A'', ''Monday'', ''Gate A''),
      (''A'', ''Monday'', ''Gate B''), (''B'', ''Monday'', ''Gate B'')]"
proof -
  have h1: "distinct (map staff_id two_staff)" by (simp add: two_staff_def ex_staff_def)
  have h2: "get [''month'' \<mapsto> JStr ''2024-05''] ''month'' = JStr ''2024-05''"
    by (simp add: get_def)
  have h3: "''2024-05'' \<noteq> []" by simp
  note t = progressive_selection [OF h1 h2 h3, of empty_db "\<lambda>n. ''t''" remdups]
  have e: "snd (consume (build_staff_map two_staff) []) = [''A'', ''A'', ''A'', ''B'']"
    by code_simp
  have fin: "fst (consume (build_staff_map two_staff) []) =
      counted two_staff (snd (consume (build_staff_map two_staff) []))"
    using t[THEN conjunct2, THEN conjunct2, THEN conjunct1] .
  have l2: "2 < length (snd (consume (build_staff_map two_staff) []))" by (simp add: e)
  have "consume (build_staff_map two_staff) [] =
         consume (counted two_staff (take 2 (snd (consume (build_staff_map two_staff) []))))
           (take 2 (snd (consume (build_staff_map two_staff) [])))"
    using t[THEN conjunct2, THEN conjunct1, rule_format, OF l2] by (rule conjunct1)
  hence mid: "consume (build_staff_map two_staff) [] =
     consume (counted two_staff [''A'', ''A'']) [''A'', ''A'']"
    by (simp add: e)
  have "inserted_slots empty_db (snd (generate_monthly_schedule (\<lambda>n. ''t'') remdups two_staff
       [''month'' \<mapsto> JStr ''2024-05''] empty_db)) =
      zip (snd (consume (build_staff_map two_staff) [])) (slot_layout weekdays)"
    using t[THEN conjunct2, THEN conjunct2, THEN conjunct2, THEN conjunct2, THEN conjunct1] .
  also have "\<dots> = [(''A'', ''Monday'', ''Gate A''), (''A'', ''Monday'', ''Gate A''),
      (''A'', ''Monday'', ''Gate B''), (''B'', ''Monday'', ''Gate B'')]"
    by code_simp
  finally have ins: "inserted_slots empty_db (snd (generate_monthly_schedule (\<lambda>n. ''t'') remdups
       two_staff [''month'' \<mapsto> JStr ''2024-05''] empty_db)) =
     [(''A'', ''Monday'', ''Gate A''), (''A'', ''Monday'', ''Gate A''),
      (''A'', ''Monday'', ''Gate B''), (''B'', ''Monday'', ''Gate B'')]" .
  have fin': "fst (consume (build_staff_map two_staff) []) =
      counted two_staff [''A'', ''A'', ''A'', ''B'']"
    using fin by (simp only: e)
  show ?thesis by (intro conjI h1 h2 e fin' mid ins)
qed

section \<open>Reset and delete: the confirmation and the month\<close>

text \<open>
  C9. With the confirmation \<open>"CONFIRM"\<close> the reset answers 200, keeps the staff members
  and leaves every one of them with \<open>priority_count\<close> 0 and no \<open>priority_updated_month\<close>,
  whatever the counters were; with any other confirmation value, or none, it answers 400
  and the store is the one it was given.
\<close>

theorem reset_priority_contract:
  "(get data ''confirmation'' = JStr ''CONFIRM'' \<longrightarrow>
      fst (reset_priority clock data db) = Reply (Message ''All staff priorities reset'') 200 \<and>
      map staff_id (staffs_table (snd (reset_priority clock data db))) =
        map staff_id (staffs_table db) \<and>
      (\<forall>r \<in> set (staffs_table (snd (reset_priority clock data db))).
         priority_count r = 0 \<and> priority_updated_month r = None)) \<and>
   (get data ''confirmation'' \<noteq> JStr ''CONFIRM'' \<longrightarrow>
      reset_priority clock data db = (Reply (Error ''Confirmation failed'') 400, db))"
  by (simp add: reset_priority_def Let_def comp_def)

theorem reset_priority_contract_witness:
  "get [''confirmation'' \<mapsto> JStr ''CONFIRM''] ''confirmation'' = JStr ''CONFIRM'' \<and>
   staffs_table (snd (reset_priority (\<lambda>n. ''t'') [''confirmation'' \<mapsto> JStr ''CONFIRM'']
      \<lparr>staffs_table = [ex_staff ''A'' False 5, ex_staff ''B'' True 2], schedule_table = []\<rparr>)) =
     [ex_staff ''A'' False 0 \<lparr>priority_updated_month := None, updated_at := Some ''t''\<rparr>,
      ex_staff ''B'' True 0 \<lparr>priority_updated_month := None, updated_at := Some ''t''\<rparr>] \<and>
   get [''confirmation'' \<mapsto> JStr ''confirm''] ''confirmation'' \<noteq> JStr ''CONFIRM'' \<and>
   reset_priority (\<lambda>n. ''t'') [''confirmation'' \<mapsto> JStr ''confirm'']
      \<lparr>staffs_table = [ex_staff ''A'' False 5], schedule_table = []\<rparr> =
     (Reply (Error ''Confirmation failed'') 400,
      \<lparr>staffs_table = [ex_staff ''A'' False 5], schedule_table = []\<rparr>)"
  using reset_priority_contract [of "[''confirmation'' \<mapsto> JStr ''CONFIRM'']" "\<lambda>n. ''t''"
      "\<lparr>staffs_table = [ex_staff ''A'' False 5, ex_staff ''B'' True 2], schedule_table = []\<rparr>"]
    reset_priority_contract [of "[''confirmation'' \<mapsto> JStr ''confirm'']" "\<lambda>n. ''t''"
      "\<lparr>staffs_table = [ex_staff ''A'' False 5], schedule_table = []\<rparr>"]
  by (simp add: get_def reset_priority_def ex_staff_def)

text \<open>
  C8. A delete request that carries the confirmation and no month is not answered with
  an error reply: \<open>month\<close> is \<open>None\<close>, \<open>month + "-01"\<close> raises a \<open>TypeError\<close> that nothing
  catches, and the store is untouched. The scheduling request without a month is
  answered with the error reply 400 and leaves the store untouched.
\<close>

theorem delete_month_without_month:
  "delete_month_schedule [''confirmation'' \<mapsto> JStr ''CONFIRM''] db = (Unhandled TypeError, db) \<and>
   generate_monthly_schedule clock list_of_set fetched Map.empty db =
     (Reply (Error ''month required'') 400, db)"
  by (simp add: delete_month_schedule_def generate_monthly_schedule_def get_def)

end
